theory Spec2Isabelle
  imports Main
begin

section \<open>Load-balancer simulation: data model\<close>

text \<open>
  The model follows \<^verbatim>\<open>main.go\<close>. Go's \<^verbatim>\<open>int\<close> and \<^verbatim>\<open>int64\<close> are 64-bit two's
  complement integers; they are modelled as \<^typ>\<open>int\<close> with the wrap-around of every
  addition, subtraction and multiplication written out by \<open>wrap64\<close>. The aggregate
  counters are \<^verbatim>\<open>float64\<close> in the source and only ever hold sums of integers; they are
  modelled as \<^typ>\<open>int\<close>, which is exact as long as they stay below \<open>2 ^ 53\<close>.
  A panic of the source is the \<open>Inl\<close> branch of a sum type.

  The repository holds a second, earlier variant of the program (8 servers, the random
  policy only, no load surcharge, no mid-run reset). Its \<^verbatim>\<open>Server\<close> methods are those of
  \<^verbatim>\<open>main.go\<close> except for the surcharge in \<^verbatim>\<open>HandleRequest\<close>, which makes the same cache
  lookup; the model below is that of \<^verbatim>\<open>main.go\<close>.
\<close>

definition wrap64 :: "int \<Rightarrow> int" where
  "wrap64 x = (x + 2 ^ 63) mod 2 ^ 64 - 2 ^ 63"

definition maxInt64 :: int where
  "maxInt64 = 2 ^ 63 - 1"

text \<open>
  Go's \<^verbatim>\<open>/\<close> and \<^verbatim>\<open>%\<close> on integers truncate towards zero: the remainder has the sign of
  the dividend. Where both operands are positive constants of the program the model
  writes \<open>div\<close>, which is the same there.
\<close>

definition go_quot :: "int \<Rightarrow> int \<Rightarrow> int" where
  "go_quot a b = sgn a * sgn b * (\<bar>a\<bar> div \<bar>b\<bar>)"

definition go_rem :: "int \<Rightarrow> int \<Rightarrow> int" where
  "go_rem a b = sgn a * (\<bar>a\<bar> mod \<bar>b\<bar>)"

datatype error = AllSlotsUsed | IndexOutOfRange | NilFunc

record Request =
  Item :: int
  Sent :: int
  Accepted :: int
  Completed :: int
  Cached :: bool

text \<open>\<^verbatim>\<open>Slot\<close> embeds a \<^verbatim>\<open>Request\<close>; the embedded struct is the field \<open>Req\<close>.\<close>

record Slot =
  Full :: bool
  Req :: Request

definition numServers :: nat where "numServers = 100"
definition numSlots :: nat where "numSlots = 8"
definition itemParameter :: int where "itemParameter = 10000"
definition cachedHandleTime :: int where "cachedHandleTime = 10"
definition uncachedHandleTime :: int where "uncachedHandleTime = 100"
definition requestLimit :: int where "requestLimit = 4000000"
definition cacheSize :: nat where "cacheSize = 180"
definition maxQueue :: nat where "maxQueue = 50"

subsection \<open>The cache\<close>

text \<open>
  \<^verbatim>\<open>Server.Cache\<close> is a \<^verbatim>\<open>*lru.Cache\<close> of the imported package
  \<^verbatim>\<open>github.com/golang/groupcache/lru\<close>. The program stores the value \<^verbatim>\<open>true\<close> under
  every key, so the model keeps the keys only: \<open>ll\<close> is the package's recency list,
  most recently used key first; \<open>MaxEntries = 0\<close> means no limit. \<open>lru_Get\<close> and
  \<open>lru_Add\<close> follow the package's \<^verbatim>\<open>Get\<close> and \<^verbatim>\<open>Add\<close>: both move a key that is present
  to the front of the list, and \<^verbatim>\<open>Add\<close> of a new key pushes it to the front and removes
  the oldest entry when the list has grown beyond \<open>MaxEntries\<close>.
\<close>

record lru =
  MaxEntries :: nat
  ll :: "int list"

definition lru_New :: "nat \<Rightarrow> lru" where
  "lru_New maxEntries = \<lparr>MaxEntries = maxEntries, ll = []\<rparr>"

definition MoveToFront :: "int \<Rightarrow> int list \<Rightarrow> int list" where
  "MoveToFront k ks = k # remove1 k ks"

definition lru_Get :: "lru \<Rightarrow> int \<Rightarrow> bool \<times> lru" where
  "lru_Get c key =
     (if key \<in> set (ll c) then (True, c\<lparr>ll := MoveToFront key (ll c)\<rparr>)
      else (False, c))"

definition RemoveOldest :: "lru \<Rightarrow> lru" where
  "RemoveOldest c = (if ll c = [] then c else c\<lparr>ll := butlast (ll c)\<rparr>)"

definition lru_Add :: "lru \<Rightarrow> int \<Rightarrow> lru" where
  "lru_Add c key =
     (if key \<in> set (ll c) then c\<lparr>ll := MoveToFront key (ll c)\<rparr>
      else
        (let c1 = c\<lparr>ll := key # ll c\<rparr>
         in if MaxEntries c1 \<noteq> 0 \<and> length (ll c1) > MaxEntries c1
            then RemoveOldest c1 else c1))"

subsection \<open>Servers\<close>

record Server =
  Queue :: "Request list"
  Slots :: "Slot list"
  SlotsUsed :: int
  Cache :: lru

definition emptyRequest :: Request where
  "emptyRequest = \<lparr>Item = 0, Sent = 0, Accepted = 0, Completed = 0, Cached = False\<rparr>"

definition emptySlot :: Slot where
  "emptySlot = \<lparr>Full = False, Req = emptyRequest\<rparr>"

text \<open>One element of \<^verbatim>\<open>servers\<close> as \<^verbatim>\<open>init\<close> builds it.\<close>

definition newServer :: Server where
  "newServer = \<lparr>Queue = [], Slots = replicate numSlots emptySlot,
                 SlotsUsed = 0, Cache = lru_New cacheSize\<rparr>"

definition AddRequest :: "Server \<Rightarrow> Request \<Rightarrow> Server" where
  "AddRequest s r =
     (if length (Queue s) < maxQueue then s\<lparr>Queue := Queue s @ [r]\<rparr> else s)"

text \<open>The index of the first slot that is not full, as the \<^verbatim>\<open>range\<close> loop finds it.\<close>

fun firstFree :: "Slot list \<Rightarrow> nat option" where
  "firstFree [] = None"
| "firstFree (sl # sls) =
     (if \<not> Full sl then Some 0 else map_option Suc (firstFree sls))"

definition FindSlot :: "Server \<Rightarrow> error + nat" where
  "FindSlot s = (case firstFree (Slots s) of None \<Rightarrow> Inl AllSlotsUsed | Some i \<Rightarrow> Inr i)"

text \<open>
  The base service time of \<^verbatim>\<open>HandleRequest\<close> and the time with the load surcharge, which
  the source computes from \<^verbatim>\<open>s.SlotsUsed\<close> before that field is incremented.
\<close>

definition baseTime :: "bool \<Rightarrow> int" where
  "baseTime cached = (if cached then cachedHandleTime else uncachedHandleTime)"

definition loadedTime :: "int \<Rightarrow> int \<Rightarrow> int" where
  "loadedTime handleTime used =
     (if used > int numSlots div 2
      then wrap64 (handleTime +
             wrap64 ((handleTime div int numSlots) * wrap64 (used - int numSlots div 2)))
      else handleTime)"

definition HandleRequest :: "int \<Rightarrow> Server \<Rightarrow> Request \<Rightarrow> error + Server" where
  "HandleRequest tm s r =
     (case FindSlot s of
        Inl e \<Rightarrow> Inl e
      | Inr i \<Rightarrow>
          (let r1 = r\<lparr>Accepted := tm\<rparr>;
               (cached, c) = lru_Get (Cache s) (Item r1);
               r2 = (if cached then r1\<lparr>Cached := True\<rparr> else r1);
               handleTime = loadedTime (baseTime cached) (SlotsUsed s);
               r3 = r2\<lparr>Completed := wrap64 (Accepted r2 + handleTime)\<rparr>
           in Inr (s\<lparr>Slots := (Slots s)[i := \<lparr>Full = True, Req = r3\<rparr>],
                     SlotsUsed := wrap64 (SlotsUsed s + 1),
                     Cache := c\<rparr>)))"

definition CompleteRequest :: "Server \<Rightarrow> nat \<Rightarrow> error + Request \<times> Server" where
  "CompleteRequest s i =
     (if i < length (Slots s) then
        (let r = Req (Slots s ! i)
         in Inr (r, s\<lparr>Slots := (Slots s)[i := (Slots s ! i)\<lparr>Full := False\<rparr>],
                       SlotsUsed := wrap64 (SlotsUsed s - 1),
                       Cache := lru_Add (Cache s) (Item r)\<rparr>))
      else Inl IndexOutOfRange)"

definition Outstanding :: "Server \<Rightarrow> int" where
  "Outstanding s = wrap64 (int (length (Queue s)) + SlotsUsed s)"

lemma HandleRequest_Queue: "HandleRequest tm s r = Inr s' \<Longrightarrow> Queue s' = Queue s"
  by (auto simp: HandleRequest_def Let_def split: sum.splits prod.splits)

text \<open>The admission loop of \<^verbatim>\<open>Server.Tick\<close>.\<close>

function admit :: "int \<Rightarrow> Server \<Rightarrow> error + Server" where
  "admit tm s =
     (if SlotsUsed s < int numSlots \<and> Queue s \<noteq> [] then
        (case HandleRequest tm s (hd (Queue s)) of
           Inl e \<Rightarrow> Inl e
         | Inr s' \<Rightarrow> admit tm (s'\<lparr>Queue := tl (Queue s')\<rparr>))
      else Inr s)"
  by pat_completeness auto
termination
  by (relation "measure (\<lambda>(tm, s). length (Queue s))")
     (auto dest: HandleRequest_Queue)

declare admit.simps [simp del]

text \<open>
  The release loop of \<^verbatim>\<open>Server.Tick\<close>: the slots are visited by increasing index, each
  read when it is reached.
\<close>

fun release :: "int \<Rightarrow> nat list \<Rightarrow> Request list \<times> Server \<Rightarrow> error + Request list \<times> Server" where
  "release tm [] acc = Inr acc"
| "release tm (i # is) (ret, s) =
     (if Full (Slots s ! i) \<and> Completed (Req (Slots s ! i)) \<le> tm then
        (case CompleteRequest s i of
           Inl e \<Rightarrow> Inl e
         | Inr (r, s') \<Rightarrow> release tm is (ret @ [r], s'))
      else release tm is (ret, s))"

definition Server_Tick :: "int \<Rightarrow> Server \<Rightarrow> error + Request list \<times> Server" where
  "Server_Tick tm s =
     (case admit tm s of
        Inl e \<Rightarrow> Inl e
      | Inr s1 \<Rightarrow> release tm [0..<length (Slots s1)] ([], s1))"

subsection \<open>Server invariant\<close>

text \<open>
  The number of full slots, and the invariant that \<^verbatim>\<open>SlotsUsed\<close> is that number, for a
  server with the \<open>numSlots\<close> slots \<^verbatim>\<open>init\<close> gives it.
\<close>

definition fullCount :: "Slot list \<Rightarrow> nat" where
  "fullCount sls = length (filter Full sls)"

definition server_inv :: "Server \<Rightarrow> bool" where
  "server_inv s \<longleftrightarrow>
     length (Slots s) = numSlots \<and> SlotsUsed s = int (fullCount (Slots s)) \<and>
     0 \<le> SlotsUsed s \<and> SlotsUsed s \<le> int numSlots"

subsection \<open>The completion tick as the specification states it\<close>

text \<open>
  Not a function of the program: the completion tick that the specification gives for a
  request accepted at tick \<open>accepted\<close> with base service time \<open>b\<close> when the slots-in-use
  count is \<open>u\<close>. The theorems compare it with what \<open>HandleRequest\<close> stores.
\<close>

definition claimedCompletion :: "int \<Rightarrow> int \<Rightarrow> int \<Rightarrow> int" where
  "claimedCompletion accepted b u =
     (if u > int numSlots div 2
      then accepted + b + (b div int numSlots) * (u - int numSlots div 2)
      else accepted + b)"

section \<open>The simulation\<close>

subsection \<open>Dispatch policies\<close>

text \<open>
  The keys of the \<^verbatim>\<open>choosePolicy\<close> map. \<^verbatim>\<open>init\<close> looks \<^verbatim>\<open>os.Args[1]\<close> up in the map; a name
  that is not a key leaves \<^verbatim>\<open>ChooseServer\<close> nil (\<open>None\<close>), and calling it panics.
\<close>

datatype policy = Random | RoundRobin | ModuloHash | ModChoose2

text \<open>
  The package-level variables, the locals \<^verbatim>\<open>tmx\<close> and \<^verbatim>\<open>prevCompletion\<close> of \<^verbatim>\<open>main\<close>, and
  \<open>finished\<close>, which is set when \<^verbatim>\<open>main\<close> leaves its loop. The last three fields are not
  variables of the program and nothing in the model reads them: \<open>dropped\<close> counts the
  arrivals \<^verbatim>\<open>AddRequest\<close> discarded, \<open>recorded\<close> lists the arguments of \<^verbatim>\<open>RecordStats\<close> with
  the tick of each call, \<open>resets\<close> counts the executions of the mid-run reset.
\<close>

record World =
  tm :: int
  servers :: "Server list"
  rrIdx :: int
  ChooseServer :: "policy option"
  totalRequests :: int
  acceptedRequests :: int
  totalCached :: int
  totalQueued :: int
  totalTime :: int
  tmx :: int
  prevCompletion :: int
  finished :: bool
  dropped :: int
  recorded :: "(int \<times> Request) list"
  resets :: nat

definition initWorld :: "policy option \<Rightarrow> World" where
  "initWorld p =
     \<lparr>tm = 0, servers = replicate numServers newServer, rrIdx = 0, ChooseServer = p,
      totalRequests = 0, acceptedRequests = 0, totalCached = 0, totalQueued = 0,
      totalTime = 0, tmx = 0, prevCompletion = - 1, finished = False,
      dropped = 0, recorded = [], resets = 0\<rparr>"

text \<open>The two candidates of \<^verbatim>\<open>modchoose2\<close>.\<close>

definition mc_first :: "Request \<Rightarrow> int" where
  "mc_first r = go_rem (Item r) (int numServers)"

definition mc_second :: "Request \<Rightarrow> int" where
  "mc_second r = go_rem (wrap64 (wrap64 (mc_first r * Item r) + 1)) (int numServers)"

definition inRange :: "int \<Rightarrow> 'a list \<Rightarrow> bool" where
  "inRange i xs \<longleftrightarrow> 0 \<le> i \<and> i < int (length xs)"

definition modchoose2 :: "Server list \<Rightarrow> Request \<Rightarrow> error + int" where
  "modchoose2 svs r =
     (let first = mc_first r; second = mc_second r
      in if \<not> inRange second svs \<or> \<not> inRange first svs then Inl IndexOutOfRange
         else if wrap64 (Outstanding (svs ! nat second) + 16) < Outstanding (svs ! nat first)
              then Inr second
              else Inr first)"

text \<open>
  A call of \<^verbatim>\<open>ChooseServer\<close>. \<open>rnd\<close> is the value \<^verbatim>\<open>rand.Int31n(numServers)\<close> returns if
  the policy calls it. The result is the index and the world with \<^verbatim>\<open>rrIdx\<close> updated.
\<close>

definition chooseServer :: "World \<Rightarrow> Request \<Rightarrow> int \<Rightarrow> error + int \<times> World" where
  "chooseServer w r rnd =
     (case ChooseServer w of
        None \<Rightarrow> Inl NilFunc
      | Some Random \<Rightarrow> Inr (rnd, w)
      | Some RoundRobin \<Rightarrow>
          Inr (rrIdx w, w\<lparr>rrIdx := go_rem (wrap64 (rrIdx w + 1)) (int numServers)\<rparr>)
      | Some ModuloHash \<Rightarrow> Inr (go_rem (Item r) (int numServers), w)
      | Some ModChoose2 \<Rightarrow>
          (case modchoose2 (servers w) r of Inl e \<Rightarrow> Inl e | Inr i \<Rightarrow> Inr (i, w)))"

subsection \<open>One tick\<close>

text \<open>
  The random draws of one tick are an input: one pair per request \<^verbatim>\<open>GenerateRequests\<close>
  returns, holding the item \<^verbatim>\<open>int64(rand.ExpFloat64() * itemParameter)\<close> and the value
  \<open>rnd\<close> for \<open>chooseServer\<close>. \<open>dispatch\<close> is one round of the loop over the requests in \<^verbatim>\<open>Tick\<close>.
\<close>

definition newRequest :: "int \<Rightarrow> int \<Rightarrow> Request" where
  "newRequest item t = \<lparr>Item = item, Sent = t, Accepted = 0, Completed = 0, Cached = False\<rparr>"

definition dispatch :: "World \<Rightarrow> int \<times> int \<Rightarrow> error + World" where
  "dispatch w d =
     (let request = newRequest (fst d) (tm w);
          w1 = w\<lparr>totalRequests := totalRequests w + 1\<rparr>
      in case chooseServer w1 request (snd d) of
           Inl e \<Rightarrow> Inl e
         | Inr (i, w2) \<Rightarrow>
             if \<not> inRange i (servers w2) then Inl IndexOutOfRange
             else
               (let s = servers w2 ! nat i
                in Inr (w2\<lparr>servers := (servers w2)[nat i := AddRequest s request],
                          dropped := dropped w2 +
                            (if length (Queue s) < maxQueue then 0 else 1)\<rparr>)))"

fun dispatchAll :: "(int \<times> int) list \<Rightarrow> World \<Rightarrow> error + World" where
  "dispatchAll [] w = Inr w"
| "dispatchAll (d # ds) w =
     (case dispatch w d of Inl e \<Rightarrow> Inl e | Inr w' \<Rightarrow> dispatchAll ds w')"

definition RecordStats :: "World \<Rightarrow> Request \<Rightarrow> World" where
  "RecordStats w r =
     w\<lparr>acceptedRequests := acceptedRequests w + 1,
       totalQueued := totalQueued w + wrap64 (Accepted r - Sent r),
       totalTime := totalTime w + wrap64 (Completed r - Sent r),
       totalCached := totalCached w + (if Cached r then 1 else 0),
       recorded := recorded w @ [(tm w, r)]\<rparr>"

text \<open>The loop over the servers in \<^verbatim>\<open>Tick\<close>, by index.\<close>

fun tickServers :: "nat list \<Rightarrow> World \<Rightarrow> error + World" where
  "tickServers [] w = Inr w"
| "tickServers (i # is) w =
     (case Server_Tick (tm w) (servers w ! i) of
        Inl e \<Rightarrow> Inl e
      | Inr (done, s') \<Rightarrow>
          tickServers is (foldl RecordStats (w\<lparr>servers := (servers w)[i := s']\<rparr>) done))"

definition Tick :: "(int \<times> int) list \<Rightarrow> World \<Rightarrow> error + World" where
  "Tick arrivals w =
     (let w1 = w\<lparr>tm := wrap64 (tm w + 1)\<rparr>
      in case (if tm w1 \<le> requestLimit then dispatchAll arrivals w1 else Inr w1) of
           Inl e \<Rightarrow> Inl e
         | Inr w2 \<Rightarrow> tickServers [0..<length (servers w2)] w2)"

subsection \<open>The main loop\<close>

definition totalOutstanding :: "Server list \<Rightarrow> int" where
  "totalOutstanding svs = foldl (\<lambda>total s. wrap64 (total + Outstanding s)) 0 svs"

definition midRunReset :: "World \<Rightarrow> World" where
  "midRunReset w =
     w\<lparr>totalRequests := 0, acceptedRequests := 0, totalQueued := 0, totalTime := 0,
       totalCached := 0, tmx := 0, resets := Suc (resets w)\<rparr>"

text \<open>
  One round of the loop of \<^verbatim>\<open>main\<close>; the \<^verbatim>\<open>Printf\<close> is left out, the update of
  \<^verbatim>\<open>prevCompletion\<close> that goes with it is kept.
\<close>

definition main_iter :: "(int \<times> int) list \<Rightarrow> World \<Rightarrow> error + World" where
  "main_iter arrivals w =
     (case Tick arrivals w of
        Inl e \<Rightarrow> Inl e
      | Inr w1 \<Rightarrow>
          (let w2 = w1\<lparr>tmx := tmx w1 + 1\<rparr>;
               total = totalOutstanding (servers w2);
               w3 = (if tm w2 = requestLimit div 2 then midRunReset w2 else w2);
               finish = (total = 0 \<and> tm w3 \<ge> requestLimit);
               completion = go_quot (wrap64 (10 * tm w3)) requestLimit;
               w4 = (if acceptedRequests w3 \<ge> 1000 \<and> completion \<noteq> prevCompletion w3 \<or> finish
                     then w3\<lparr>prevCompletion := completion\<rparr> else w3)
           in Inr (w4\<lparr>finished := finish\<rparr>)))"

text \<open>
  The loop runs until \<open>finish\<close>; the model runs it on the draws of finitely many ticks,
  one list per tick, and stops early when the loop is left.
\<close>

fun main_loop :: "(int \<times> int) list list \<Rightarrow> World \<Rightarrow> error + World" where
  "main_loop [] w = Inr w"
| "main_loop (a # as) w =
     (if finished w then Inr w
      else case main_iter a w of Inl e \<Rightarrow> Inl e | Inr w' \<Rightarrow> main_loop as w')"


subsection \<open>Timing invariant\<close>

text \<open>
  A request is well timed when it was accepted no earlier than it was sent and its
  completion tick lies at least \<open>cachedHandleTime\<close> after its acceptance. A server is well
  timed at tick \<open>t\<close> when every queued request was sent by \<open>t\<close> and every full slot holds a
  well-timed request accepted by \<open>t\<close>.
\<close>

definition req_timed :: "Request \<Rightarrow> bool" where
  "req_timed r \<longleftrightarrow> Sent r \<le> Accepted r \<and> Accepted r + cachedHandleTime \<le> Completed r"

definition server_timed :: "int \<Rightarrow> Server \<Rightarrow> bool" where
  "server_timed t s \<longleftrightarrow>
     (\<forall>r\<in>set (Queue s). Sent r \<le> t) \<and>
     (\<forall>sl\<in>set (Slots s). Full sl \<longrightarrow> req_timed (Req sl) \<and> Accepted (Req sl) \<le> t)"

definition server_ok :: "int \<Rightarrow> Server \<Rightarrow> bool" where
  "server_ok t s \<longleftrightarrow> server_inv s \<and> length (Queue s) \<le> maxQueue \<and> server_timed t s"

definition world_ok :: "World \<Rightarrow> bool" where
  "world_ok w \<longleftrightarrow>
     0 \<le> tm w \<and> (\<forall>s\<in>set (servers w). server_ok (tm w) s) \<and>
     (\<forall>(t, r)\<in>set (recorded w). req_timed r \<and> Completed r \<le> t)"

text \<open>
  The requests counted as generated that are neither counted as accepted, nor dropped,
  nor outstanding on a server.
\<close>

definition balance :: "World \<Rightarrow> int" where
  "balance w =
     totalRequests w - acceptedRequests w - dropped w - sum_list (map Outstanding (servers w))"

text \<open>The mid-run reset has run exactly when the clock has reached half the horizon.\<close>

definition reset_ok :: "World \<Rightarrow> bool" where
  "reset_ok w \<longleftrightarrow>
     0 \<le> tm w \<and> resets w = (if requestLimit div 2 \<le> tm w then 1 else 0) \<and>
     (finished w \<longrightarrow> requestLimit \<le> tm w)"


subsection \<open>Example states\<close>

text \<open>Concrete requests and servers at which the theorems below are evaluated.\<close>

definition exReq :: Request where
  "exReq = \<lparr>Item = 5, Sent = 1, Accepted = 0, Completed = 0, Cached = False\<rparr>"

definition exFullQueue :: Server where
  "exFullQueue = newServer\<lparr>Queue := replicate 50 exReq\<rparr>"

definition exAdmitted :: Server where
  "exAdmitted = newServer\<lparr>
     Slots := \<lparr>Full = True, Req = exReq\<lparr>Accepted := 1, Completed := 101\<rparr>\<rparr>
              # replicate 7 emptySlot,
     SlotsUsed := 1\<rparr>"

definition exCompleted :: Server where
  "exCompleted = newServer\<lparr>
     Slots := \<lparr>Full = False, Req = exReq\<lparr>Accepted := 1, Completed := 101\<rparr>\<rparr>
              # replicate 7 emptySlot,
     Cache := \<lparr>MaxEntries = 180, ll = [5]\<rparr>\<rparr>"

definition fullSlot :: Slot where
  "fullSlot = \<lparr>Full = True, Req = emptyRequest\<lparr>Completed := 1000\<rparr>\<rparr>"

definition exHalfFull :: Server where
  "exHalfFull = newServer\<lparr>Slots := replicate 4 fullSlot @ replicate 4 emptySlot,
                          SlotsUsed := 4\<rparr>"

definition exFiveFull :: Server where
  "exFiveFull = newServer\<lparr>
     Slots := replicate 4 fullSlot
              @ \<lparr>Full = True, Req = exReq\<lparr>Accepted := 1, Completed := 101\<rparr>\<rparr>
              # replicate 3 emptySlot,
     SlotsUsed := 5\<rparr>"

definition exSixFull :: Server where
  "exSixFull = newServer\<lparr>
     Slots := replicate 4 fullSlot
              @ \<lparr>Full = True, Req = exReq\<lparr>Accepted := 1, Completed := 101\<rparr>\<rparr>
              # \<lparr>Full = True, Req = exReq\<lparr>Accepted := 1, Completed := 113\<rparr>\<rparr>
              # replicate 2 emptySlot,
     SlotsUsed := 6\<rparr>"

definition exWarm :: Server where
  "exWarm = newServer\<lparr>Cache := \<lparr>MaxEntries = 180, ll = [1, 2]\<rparr>\<rparr>"

definition exReq2 :: Request where
  "exReq2 = \<lparr>Item = 2, Sent = 1, Accepted = 0, Completed = 0, Cached = False\<rparr>"

definition exWarmAdmitted :: Server where
  "exWarmAdmitted = newServer\<lparr>
     Slots := \<lparr>Full = True, Req = exReq2\<lparr>Accepted := 1, Completed := 11, Cached := True\<rparr>\<rparr>
              # replicate 7 emptySlot,
     SlotsUsed := 1,
     Cache := \<lparr>MaxEntries = 180, ll = [2, 1]\<rparr>\<rparr>"


text \<open>
  Worlds of a run under \<^verbatim>\<open>modulohash\<close> in which one request for item 5 arrives in the first
  tick and nothing arrives afterwards: after the first tick, after 100 ticks, and after
  101 ticks, when the request has been released. \<open>exQuiet\<close> and \<open>exReset\<close> are the worlds
  of a run without any arrival before and after the tick \<open>requestLimit div 2\<close>.
\<close>

definition exOneTick :: World where
  "exOneTick = (initWorld (Some ModuloHash))\<lparr>
     tm := 1, servers := (replicate numServers newServer)[5 := exAdmitted],
     totalRequests := 1, tmx := 1\<rparr>"

definition exBusy :: World where
  "exBusy = exOneTick\<lparr>tm := 100, tmx := 100\<rparr>"

definition exDone :: World where
  "exDone = exBusy\<lparr>
     tm := 101, servers := (replicate numServers newServer)[5 := exCompleted],
     acceptedRequests := 1, totalTime := 100, tmx := 101,
     recorded := [(101, exReq\<lparr>Accepted := 1, Completed := 101\<rparr>)]\<rparr>"

definition exQuiet :: World where
  "exQuiet = (initWorld (Some Random))\<lparr>tm := 1999999, tmx := 1999999\<rparr>"

definition exReset :: World where
  "exReset = (initWorld (Some Random))\<lparr>tm := 2000000, tmx := 0, resets := 1\<rparr>"

text \<open>
  The servers when the 17th of 17 requests for item 1, all arriving in one tick, is
  dispatched by \<^verbatim>\<open>modchoose2\<close> (candidates 1 and 2): server 1 holds the 16 earlier ones.
  \<open>exMargin17\<close> is the state one request later.
\<close>

definition exMargin16 :: "Server list" where
  "exMargin16 =
     (replicate numServers newServer)[1 := newServer\<lparr>Queue := replicate 16 (newRequest 1 1)\<rparr>]"

definition exMargin17 :: "Server list" where
  "exMargin17 =
     (replicate numServers newServer)[1 := newServer\<lparr>Queue := replicate 17 (newRequest 1 1)\<rparr>]"

section \<open>Properties of one server\<close>

lemma wrap64_id: "- (2 ^ 63) \<le> x \<Longrightarrow> x < 2 ^ 63 \<Longrightarrow> wrap64 x = x"
  by (simp add: wrap64_def)

lemma fullCount_le: "fullCount sls \<le> length sls"
  by (simp add: fullCount_def)

lemma fullCount_update_nat:
  "i < length sls \<Longrightarrow>
   fullCount (sls[i := sl]) + (if Full (sls ! i) then 1 else 0) =
     fullCount sls + (if Full sl then 1 else 0)"
proof (induction sls arbitrary: i)
  case Nil
  then show ?case by simp
next
  case (Cons a sls)
  show ?case
  proof (cases i)
    case 0
    then show ?thesis by (simp add: fullCount_def)
  next
    case (Suc j)
    with Cons.prems have "j < length sls" by simp
    from Cons.IH [OF this] Suc show ?thesis by (simp add: fullCount_def)
  qed
qed

lemma fullCount_update:
  "i < length sls \<Longrightarrow>
   int (fullCount (sls[i := sl])) =
     int (fullCount sls) - (if Full (sls ! i) then 1 else 0) + (if Full sl then 1 else 0)"
  using fullCount_update_nat [of i sls sl] by (simp split: if_splits)

lemma firstFree_Some:
  "firstFree sls = Some i \<Longrightarrow> i < length sls \<and> \<not> Full (sls ! i)"
proof (induction sls arbitrary: i)
  case Nil
  then show ?case by simp
next
  case (Cons a sls)
  then show ?case by (auto split: if_splits)
qed

lemma firstFree_None: "firstFree sls = None \<Longrightarrow> fullCount sls = length sls"
  by (induction sls) (auto simp: fullCount_def split: if_splits)

lemma FindSlot_free:
  assumes "length (Slots s) = numSlots" "SlotsUsed s = int (fullCount (Slots s))"
    "SlotsUsed s < int numSlots"
  shows "\<exists>i. FindSlot s = Inr i \<and> i < numSlots \<and> \<not> Full (Slots s ! i)"
proof (cases "firstFree (Slots s)")
  case None
  from firstFree_None [OF this] assms show ?thesis by simp
next
  case (Some i)
  with firstFree_Some [OF Some] assms show ?thesis by (simp add: FindSlot_def)
qed

lemma FindSlot_Inr: "FindSlot s = Inr i \<Longrightarrow> i < length (Slots s) \<and> \<not> Full (Slots s ! i)"
  by (auto simp: FindSlot_def split: option.splits dest: firstFree_Some)

lemma HandleRequest_inv:
  assumes "server_inv s" "HandleRequest now s r = Inr s'"
  shows "server_inv s'"
proof -
  from assms(2) obtain i where i: "FindSlot s = Inr i"
    by (auto simp: HandleRequest_def split: sum.splits)
  note fr = FindSlot_Inr [OF i]
  from assms(2) i obtain sl where s': "Slots s' = (Slots s)[i := sl]" "Full sl"
    "SlotsUsed s' = wrap64 (SlotsUsed s + 1)"
    by (auto simp: HandleRequest_def Let_def split: prod.splits)
  have cnt: "int (fullCount (Slots s')) = int (fullCount (Slots s)) + 1"
    using fullCount_update [of i "Slots s" sl] fr s' by simp
  have le: "fullCount (Slots s') \<le> numSlots"
    using fullCount_le [of "Slots s'"] assms(1) s' by (simp add: server_inv_def)
  have "wrap64 (SlotsUsed s + 1) = SlotsUsed s + 1"
    using assms(1) by (intro wrap64_id) (auto simp: server_inv_def numSlots_def)
  with cnt le s' assms(1) show ?thesis by (simp add: server_inv_def)
qed

lemma CompleteRequest_inv:
  assumes "server_inv s" "Full (Slots s ! i)" "CompleteRequest s i = Inr (r, s')"
  shows "server_inv s'"
proof -
  from assms(3) have i: "i < length (Slots s)"
    and s': "Slots s' = (Slots s)[i := (Slots s ! i)\<lparr>Full := False\<rparr>]"
      "SlotsUsed s' = wrap64 (SlotsUsed s - 1)"
    by (auto simp: CompleteRequest_def Let_def split: if_splits)
  have cnt: "int (fullCount (Slots s')) = int (fullCount (Slots s)) - 1"
    using fullCount_update [OF i, of "(Slots s ! i)\<lparr>Full := False\<rparr>"] assms(2) s' by simp
  have "wrap64 (SlotsUsed s - 1) = SlotsUsed s - 1"
    using assms(1) by (intro wrap64_id) (auto simp: server_inv_def numSlots_def)
  with cnt s' assms(1) show ?thesis by (auto simp: server_inv_def)
qed

lemma AddRequest_inv: "server_inv s \<Longrightarrow> server_inv (AddRequest s r)"
  by (simp add: server_inv_def AddRequest_def)

lemma admit_inv: "server_inv s \<Longrightarrow> admit now s = Inr s' \<Longrightarrow> server_inv s'"
proof (induction now s rule: admit.induct)
  case (1 now s)
  show ?case
  proof (cases "SlotsUsed s < int numSlots \<and> Queue s \<noteq> []")
    case True
    with "1.prems"(2) obtain s1 where h: "HandleRequest now s (hd (Queue s)) = Inr s1"
      and a: "admit now (s1\<lparr>Queue := tl (Queue s1)\<rparr>) = Inr s'"
      by (subst (asm) admit.simps) (auto split: sum.splits)
    have "server_inv (s1\<lparr>Queue := tl (Queue s1)\<rparr>)"
      using HandleRequest_inv [OF "1.prems"(1) h] by (simp add: server_inv_def)
    from "1.IH" [OF True h this a] show ?thesis .
  next
    case False
    with "1.prems" show ?thesis by (subst (asm) admit.simps) auto
  qed
qed

lemma HandleRequest_no_panic:
  "FindSlot s = Inr i \<Longrightarrow> \<exists>s1. HandleRequest now s r = Inr s1"
  by (cases "lru_Get (Cache s) (Item r)") (simp add: HandleRequest_def Let_def)

lemma admit_no_panic: "server_inv s \<Longrightarrow> \<exists>s'. admit now s = Inr s'"
proof (induction now s rule: admit.induct)
  case (1 now s)
  show ?case
  proof (cases "SlotsUsed s < int numSlots \<and> Queue s \<noteq> []")
    case True
    with "1.prems" obtain i where i: "FindSlot s = Inr i"
      using FindSlot_free [of s] by (auto simp: server_inv_def)
    then obtain s1 where h: "HandleRequest now s (hd (Queue s)) = Inr s1"
      using HandleRequest_no_panic by blast
    have "server_inv (s1\<lparr>Queue := tl (Queue s1)\<rparr>)"
      using HandleRequest_inv [OF "1.prems"(1) h] by (simp add: server_inv_def)
    from "1.IH" [OF True h this] h True show ?thesis
      by (subst admit.simps) simp
  next
    case False
    then show ?thesis by (subst admit.simps) auto
  qed
qed

lemma release_inv:
  "server_inv s \<Longrightarrow> release now is (ret, s) = Inr (ret', s') \<Longrightarrow> server_inv s'"
proof (induction "is" arbitrary: ret s)
  case Nil
  then show ?case by simp
next
  case (Cons i "is")
  show ?case
  proof (cases "Full (Slots s ! i) \<and> Completed (Req (Slots s ! i)) \<le> now")
    case True
    with Cons.prems(2) obtain r s1 where c: "CompleteRequest s i = Inr (r, s1)"
      and rel: "release now is (ret @ [r], s1) = Inr (ret', s')"
      by (auto split: sum.splits)
    from CompleteRequest_inv [OF Cons.prems(1) _ c] True have "server_inv s1" by simp
    from Cons.IH [OF this rel] show ?thesis .
  next
    case False
    with Cons.prems Cons.IH show ?thesis by auto
  qed
qed

lemma CompleteRequest_length:
  "CompleteRequest s i = Inr (r, s') \<Longrightarrow> length (Slots s') = length (Slots s)"
  by (auto simp: CompleteRequest_def Let_def split: if_splits)

lemma release_no_panic:
  "\<forall>i\<in>set is. i < length (Slots s) \<Longrightarrow> \<exists>ret' s'. release now is (ret, s) = Inr (ret', s')"
proof (induction "is" arbitrary: ret s)
  case Nil
  then show ?case by simp
next
  case (Cons i "is")
  then have i: "i < length (Slots s)" by simp
  then obtain r s1 where c: "CompleteRequest s i = Inr (r, s1)"
    by (auto simp: CompleteRequest_def Let_def)
  have "\<forall>j\<in>set is. j < length (Slots s1)"
    using Cons.prems CompleteRequest_length [OF c] by simp
  from Cons.IH [OF this] Cons.IH [OF ] Cons.prems c show ?case
    by (cases "Full (Slots s ! i) \<and> Completed (Req (Slots s ! i)) \<le> now") auto
qed

lemma Server_Tick_inv:
  "server_inv s \<Longrightarrow> Server_Tick now s = Inr (ret, s') \<Longrightarrow> server_inv s'"
  by (auto simp: Server_Tick_def split: sum.splits dest: admit_inv release_inv)

lemma Server_Tick_no_panic:
  assumes "server_inv s"
  shows "\<exists>ret s'. Server_Tick now s = Inr (ret, s')"
proof -
  from admit_no_panic [OF assms] obtain s1 where a: "admit now s = Inr s1" by blast
  from release_no_panic [of "[0..<length (Slots s1)]" s1 now "[]"]
  show ?thesis using a by (simp add: Server_Tick_def)
qed

lemma newServer_inv: "server_inv newServer"
  by (simp add: server_inv_def newServer_def fullCount_def emptySlot_def numSlots_def)

lemma loadedTime_small:
  assumes "0 \<le> used" "used \<le> int numSlots"
  shows "loadedTime (baseTime c) used =
           (if used > int numSlots div 2
            then baseTime c + (baseTime c div int numSlots) * (used - int numSlots div 2)
            else baseTime c)"
proof (cases "used > int numSlots div 2")
  case False
  then show ?thesis by (simp add: loadedTime_def)
next
  case True
  let ?d = "used - int numSlots div 2"
  have d: "0 < ?d" "?d \<le> 4" using True assms by (simp_all add: numSlots_def)
  have b: "baseTime c div int numSlots = 1 \<or> baseTime c div int numSlots = 12"
    by (simp add: baseTime_def numSlots_def cachedHandleTime_def uncachedHandleTime_def)
  have bt: "baseTime c = 10 \<or> baseTime c = 100"
    by (simp add: baseTime_def cachedHandleTime_def uncachedHandleTime_def)
  have m: "0 \<le> (baseTime c div int numSlots) * ?d" "(baseTime c div int numSlots) * ?d \<le> 48"
    using b d by auto
  have w1: "wrap64 ?d = ?d" using d by (intro wrap64_id) simp_all
  have w2: "wrap64 ((baseTime c div int numSlots) * ?d) = (baseTime c div int numSlots) * ?d"
    using m by (intro wrap64_id) simp_all
  have w3: "wrap64 (baseTime c + (baseTime c div int numSlots) * ?d)
              = baseTime c + (baseTime c div int numSlots) * ?d"
    using m bt by (intro wrap64_id) auto
  from True w1 w2 w3 show ?thesis by (simp add: loadedTime_def)
qed

lemma loadedTime_bounds:
  assumes "0 \<le> used" "used \<le> int numSlots"
  shows "cachedHandleTime \<le> loadedTime (baseTime c) used \<and> loadedTime (baseTime c) used \<le> 148"
proof -
  let ?d = "used - int numSlots div 2"
  have bt: "baseTime c = 10 \<and> baseTime c div int numSlots = 1
          \<or> baseTime c = 100 \<and> baseTime c div int numSlots = 12"
    by (simp add: baseTime_def numSlots_def cachedHandleTime_def uncachedHandleTime_def)
  show ?thesis
  proof (cases "used > int numSlots div 2")
    case False
    with bt show ?thesis
      by (auto simp: loadedTime_small [OF assms] cachedHandleTime_def)
  next
    case True
    then have d: "0 < ?d" "?d \<le> 4" using assms by (simp_all add: numSlots_def)
    from bt d True show ?thesis
      by (auto simp: loadedTime_small [OF assms] cachedHandleTime_def)
  qed
qed

lemma HandleRequest_slot:
  assumes "HandleRequest now s r = Inr s'" "FindSlot s = Inr i"
  shows "Slots s' = (Slots s)[i := \<lparr>Full = True,
           Req = r\<lparr>Accepted := now,
                   Cached := (Item r \<in> set (ll (Cache s))) \<or> Cached r,
                   Completed := wrap64 (now + loadedTime (baseTime (Item r \<in> set (ll (Cache s))))
                                              (SlotsUsed s))\<rparr>\<rparr>]
       \<and> SlotsUsed s' = wrap64 (SlotsUsed s + 1)
       \<and> Cache s' = snd (lru_Get (Cache s) (Item r))
       \<and> Queue s' = Queue s"
  using assms by (auto simp: HandleRequest_def Let_def lru_Get_def split: if_splits)

lemma set_MoveToFront: "k \<in> set ks \<Longrightarrow> set (MoveToFront k ks) = set ks"
  by (induction ks) (auto simp: MoveToFront_def)

lemma length_MoveToFront: "k \<in> set ks \<Longrightarrow> length (MoveToFront k ks) = length ks"
  by (induction ks) (auto simp: MoveToFront_def)

subsection \<open>Timing of one server\<close>

lemma server_timed_mono: "server_timed t s \<Longrightarrow> t \<le> t' \<Longrightarrow> server_timed t' s"
  by (fastforce simp: server_timed_def)

lemma server_ok_mono: "server_ok t s \<Longrightarrow> t \<le> t' \<Longrightarrow> server_ok t' s"
  by (auto simp: server_ok_def dest: server_timed_mono)

lemma AddRequest_ok:
  "server_ok t s \<Longrightarrow> Sent r \<le> t \<Longrightarrow> server_ok t (AddRequest s r)"
  by (auto simp: server_ok_def server_timed_def server_inv_def AddRequest_def)

lemma Outstanding_bounds:
  assumes "server_inv s" "length (Queue s) \<le> maxQueue"
  shows "Outstanding s = int (length (Queue s)) + SlotsUsed s \<and>
         0 \<le> Outstanding s \<and> Outstanding s \<le> 58"
proof -
  from assms have b: "0 \<le> SlotsUsed s" "SlotsUsed s \<le> 8" "length (Queue s) \<le> 50"
    by (simp_all add: server_inv_def numSlots_def maxQueue_def)
  then have "wrap64 (int (length (Queue s)) + SlotsUsed s) = int (length (Queue s)) + SlotsUsed s"
    by (intro wrap64_id) simp_all
  with b show ?thesis by (simp add: Outstanding_def)
qed

lemma HandleRequest_stamp:
  assumes inv: "server_inv s" and h: "HandleRequest now s r = Inr s'"
    and i: "FindSlot s = Inr i" and t: "0 \<le> now" "now \<le> maxInt64 - 148"
  shows "Full (Slots s' ! i) \<and> Accepted (Req (Slots s' ! i)) = now \<and>
         now + cachedHandleTime \<le> Completed (Req (Slots s' ! i))"
proof -
  let ?c = "Item r \<in> set (ll (Cache s))"
  let ?lt = "loadedTime (baseTime ?c) (SlotsUsed s)"
  note sl = HandleRequest_slot [OF h i]
  have il: "i < length (Slots s)" using FindSlot_Inr [OF i] by simp
  from inv have u: "0 \<le> SlotsUsed s" "SlotsUsed s \<le> int numSlots"
    by (simp_all add: server_inv_def)
  note lb = loadedTime_bounds [OF u, of ?c]
  have "wrap64 (now + ?lt) = now + ?lt"
    using lb t by (intro wrap64_id) (simp_all add: maxInt64_def cachedHandleTime_def)
  with sl il lb show ?thesis by simp
qed

lemma Outstanding_ok:
  assumes "server_ok t s"
  shows "Outstanding s = int (length (Queue s)) + SlotsUsed s"
proof -
  from assms have "0 \<le> SlotsUsed s" "SlotsUsed s \<le> 8" "length (Queue s) \<le> 50"
    by (simp_all add: server_ok_def server_inv_def numSlots_def maxQueue_def)
  then show ?thesis unfolding Outstanding_def by (intro wrap64_id) simp_all
qed

lemma HandleRequest_timed:
  assumes inv: "server_inv s" and tmd: "server_timed now s"
    and h: "HandleRequest now s r = Inr s'" and r: "Sent r \<le> now"
    and t: "0 \<le> now" "now \<le> maxInt64 - 148"
  shows "server_timed now s'"
proof -
  from h obtain i where i: "FindSlot s = Inr i"
    by (auto simp: HandleRequest_def split: sum.splits)
  let ?c = "Item r \<in> set (ll (Cache s))"
  let ?lt = "loadedTime (baseTime ?c) (SlotsUsed s)"
  let ?r = "r\<lparr>Accepted := now, Cached := ?c \<or> Cached r, Completed := wrap64 (now + ?lt)\<rparr>"
  note sl = HandleRequest_slot [OF h i]
  from inv have u: "0 \<le> SlotsUsed s" "SlotsUsed s \<le> int numSlots"
    by (simp_all add: server_inv_def)
  note lb = loadedTime_bounds [OF u, of ?c]
  have w: "wrap64 (now + ?lt) = now + ?lt"
    using lb t by (intro wrap64_id) (simp_all add: maxInt64_def cachedHandleTime_def)
  have new: "req_timed ?r \<and> Accepted ?r \<le> now"
    using r lb w by (simp add: req_timed_def)
  have "set (Slots s') \<subseteq> insert \<lparr>Full = True, Req = ?r\<rparr> (set (Slots s))"
    using sl set_update_subset_insert by metis
  with tmd new sl show ?thesis
    by (auto simp: server_timed_def)
qed

lemma HandleRequest_count:
  assumes "server_inv s" "HandleRequest now s r = Inr s'"
  shows "SlotsUsed s' = SlotsUsed s + 1"
proof -
  from assms(2) obtain i where i: "FindSlot s = Inr i"
    by (auto simp: HandleRequest_def split: sum.splits)
  from HandleRequest_slot [OF assms(2) i] assms(1) wrap64_id [of "SlotsUsed s + 1"]
  show ?thesis by (simp add: server_inv_def numSlots_def)
qed

lemma admit_ok:
  "server_ok now s \<Longrightarrow> admit now s = Inr s' \<Longrightarrow> 0 \<le> now \<Longrightarrow> now \<le> maxInt64 - 148 \<Longrightarrow>
   server_ok now s' \<and>
   int (length (Queue s')) + SlotsUsed s' = int (length (Queue s)) + SlotsUsed s"
proof (induction now s rule: admit.induct)
  case (1 now s)
  show ?case
  proof (cases "SlotsUsed s < int numSlots \<and> Queue s \<noteq> []")
    case True
    with "1.prems"(2) obtain s1 where h: "HandleRequest now s (hd (Queue s)) = Inr s1"
      and a: "admit now (s1\<lparr>Queue := tl (Queue s1)\<rparr>) = Inr s'"
      by (subst (asm) admit.simps) (auto split: sum.splits)
    from "1.prems"(1) have inv: "server_inv s" and tmd: "server_timed now s"
      and q: "length (Queue s) \<le> maxQueue"
      by (simp_all add: server_ok_def)
    from True tmd have sent: "Sent (hd (Queue s)) \<le> now"
      by (simp add: server_timed_def)
    note q1 = HandleRequest_Queue [OF h]
    have t1: "server_timed now s1"
      using HandleRequest_timed [OF inv tmd h sent "1.prems"(3,4)] .
    have "set (tl (Queue s1)) \<subseteq> set (Queue s1)"
      by (cases "Queue s1") auto
    then have "server_timed now (s1\<lparr>Queue := tl (Queue s1)\<rparr>)"
      using t1 by (auto simp: server_timed_def)
    moreover have "server_inv (s1\<lparr>Queue := tl (Queue s1)\<rparr>)"
      using HandleRequest_inv [OF inv h] by (simp add: server_inv_def)
    ultimately have ok1: "server_ok now (s1\<lparr>Queue := tl (Queue s1)\<rparr>)"
      using q q1 by (simp add: server_ok_def)
    from "1.IH" [OF True h ok1 a "1.prems"(3,4)] HandleRequest_count [OF inv h] q1 True
    show ?thesis by (cases "Queue s") auto
  next
    case False
    with "1.prems" show ?thesis by (subst (asm) admit.simps) auto
  qed
qed


lemma CompleteRequest_ok:
  assumes ok: "server_ok now s" and full: "Full (Slots s ! i)"
    and c: "CompleteRequest s i = Inr (r, s')"
  shows "server_ok now s' \<and> Queue s' = Queue s \<and> SlotsUsed s' = SlotsUsed s - 1 \<and>
         r = Req (Slots s ! i) \<and> req_timed r \<and> length (Slots s') = length (Slots s)"
proof -
  from ok have inv: "server_inv s" and tmd: "server_timed now s"
    by (simp_all add: server_ok_def)
  from c have i: "i < length (Slots s)"
    and s': "Slots s' = (Slots s)[i := (Slots s ! i)\<lparr>Full := False\<rparr>]"
      "SlotsUsed s' = wrap64 (SlotsUsed s - 1)" "Queue s' = Queue s" "r = Req (Slots s ! i)"
    by (auto simp: CompleteRequest_def Let_def split: if_splits)
  have w: "wrap64 (SlotsUsed s - 1) = SlotsUsed s - 1"
    using inv by (intro wrap64_id) (auto simp: server_inv_def numSlots_def)
  have "set (Slots s') \<subseteq> insert ((Slots s ! i)\<lparr>Full := False\<rparr>) (set (Slots s))"
    using s'(1) set_update_subset_insert by metis
  with tmd s' have t': "server_timed now s'"
    by (auto simp: server_timed_def)
  from tmd full i have "req_timed r"
    by (auto simp: server_timed_def s'(4))
  with CompleteRequest_inv [OF inv full c] t' ok s' w show ?thesis
    by (simp add: server_ok_def)
qed

lemma release_ok:
  "server_ok now s \<Longrightarrow> release now is (ret, s) = Inr (ret', s') \<Longrightarrow>
   server_ok now s' \<and> Queue s' = Queue s \<and>
   (\<exists>new. ret' = ret @ new \<and> (\<forall>r\<in>set new. req_timed r \<and> Completed r \<le> now) \<and>
          SlotsUsed s' = SlotsUsed s - int (length new))"
proof (induction "is" arbitrary: ret s)
  case Nil
  then show ?case by simp
next
  case (Cons i "is")
  show ?case
  proof (cases "Full (Slots s ! i) \<and> Completed (Req (Slots s ! i)) \<le> now")
    case True
    with Cons.prems(2) obtain r s1 where c: "CompleteRequest s i = Inr (r, s1)"
      and rel: "release now is (ret @ [r], s1) = Inr (ret', s')"
      by (auto split: sum.splits)
    from True have full: "Full (Slots s ! i)" by simp
    note c1 = CompleteRequest_ok [OF Cons.prems(1) full c]
    from c1 have ok1: "server_ok now s1" by simp
    from Cons.IH [OF ok1 rel] obtain new where
      n: "server_ok now s'" "Queue s' = Queue s1" "ret' = (ret @ [r]) @ new"
        "\<forall>r\<in>set new. req_timed r \<and> Completed r \<le> now"
        "SlotsUsed s' = SlotsUsed s1 - int (length new)"
      by blast
    have e1: "ret' = ret @ (r # new)" using n(3) by simp
    have e2: "\<forall>x\<in>set (r # new). req_timed x \<and> Completed x \<le> now"
      using n(4) c1 True by auto
    have e3: "SlotsUsed s' = SlotsUsed s - int (length (r # new))"
      using n(5) c1 by simp
    have q: "Queue s' = Queue s" using n(2) c1 by simp
    from e1 e2 e3 have "\<exists>new. ret' = ret @ new \<and>
        (\<forall>r\<in>set new. req_timed r \<and> Completed r \<le> now) \<and>
        SlotsUsed s' = SlotsUsed s - int (length new)"
      by (intro exI [of _ "r # new"]) simp
    with n(1) q show ?thesis by simp
  next
    case False
    with Cons.prems(2) have "release now is (ret, s) = Inr (ret', s')" by auto
    from Cons.IH [OF Cons.prems(1) this] show ?thesis .
  qed
qed

lemma Server_Tick_ok:
  assumes ok: "server_ok now s" and t: "Server_Tick now s = Inr (done, s')"
    and b: "0 \<le> now" "now \<le> maxInt64 - 148"
  shows "server_ok now s' \<and> (\<forall>r\<in>set done. req_timed r \<and> Completed r \<le> now) \<and>
         Outstanding s = Outstanding s' + int (length done)"
proof -
  from t obtain s1 where a: "admit now s = Inr s1"
    and r: "release now [0..<length (Slots s1)] ([], s1) = Inr (done, s')"
    by (auto simp: Server_Tick_def split: sum.splits)
  note a1 = admit_ok [OF ok a b]
  from a1 have ok1: "server_ok now s1" by simp
  from release_ok [OF ok1 r] obtain new where
    n: "server_ok now s'" "Queue s' = Queue s1" "done = [] @ new"
      "\<forall>r\<in>set new. req_timed r \<and> Completed r \<le> now"
      "SlotsUsed s' = SlotsUsed s1 - int (length new)"
    by blast
  from n a1 Outstanding_ok [OF ok] Outstanding_ok [OF n(1)] show ?thesis by simp
qed

lemma newServer_ok: "server_ok t newServer"
  using newServer_inv by (simp add: server_ok_def server_timed_def newServer_def emptySlot_def)

section \<open>Properties of the simulation\<close>

lemma sum_list_map_update:
  fixes f :: "'a \<Rightarrow> int"
  shows "i < length xs \<Longrightarrow>
         sum_list (map f (xs[i := y])) = sum_list (map f xs) - f (xs ! i) + f y"
proof (induction xs arbitrary: i)
  case Nil
  then show ?case by simp
next
  case (Cons a xs)
  then show ?case by (cases i) auto
qed

lemma ball_set_update:
  "\<forall>x\<in>set xs. P x \<Longrightarrow> P y \<Longrightarrow> \<forall>x\<in>set (xs[i := y]). P x"
  using set_update_subset_insert [of xs i y] by auto

lemma foldl_RecordStats:
  "tm (foldl RecordStats w done) = tm w \<and>
   servers (foldl RecordStats w done) = servers w \<and>
   totalRequests (foldl RecordStats w done) = totalRequests w \<and>
   dropped (foldl RecordStats w done) = dropped w \<and>
   resets (foldl RecordStats w done) = resets w \<and>
   finished (foldl RecordStats w done) = finished w \<and>
   acceptedRequests (foldl RecordStats w done) = acceptedRequests w + int (length done) \<and>
   recorded (foldl RecordStats w done) = recorded w @ map (Pair (tm w)) done"
  by (induction "done" arbitrary: w) (simp_all add: RecordStats_def)

lemma chooseServer_frame:
  "chooseServer w r rnd = Inr (i, w') \<Longrightarrow> w' = w\<lparr>rrIdx := rrIdx w'\<rparr>"
  by (auto simp: chooseServer_def split: option.splits policy.splits sum.splits)

lemma dispatch_ok:
  assumes ok: "world_ok w" and d: "dispatch w d = Inr w'"
  shows "world_ok w' \<and> balance w' = balance w \<and> tm w' = tm w \<and> resets w' = resets w \<and>
         finished w' = finished w"
proof -
  let ?r = "newRequest (fst d) (tm w)"
  let ?w1 = "w\<lparr>totalRequests := totalRequests w + 1\<rparr>"
  from d obtain i w2 where c: "chooseServer ?w1 ?r (snd d) = Inr (i, w2)"
    and rng: "inRange i (servers w2)"
    and w': "w' = w2\<lparr>servers := (servers w2)[nat i := AddRequest (servers w2 ! nat i) ?r],
                      dropped := dropped w2 +
                        (if length (Queue (servers w2 ! nat i)) < maxQueue then 0 else 1)\<rparr>"
    by (auto simp: dispatch_def Let_def split: sum.splits if_splits)
  from chooseServer_frame [OF c] have w2: "w2 = ?w1\<lparr>rrIdx := rrIdx w2\<rparr>" .
  have f2: "tm w2 = tm w" "servers w2 = servers w" "recorded w2 = recorded w"
    "totalRequests w2 = totalRequests w + 1" "acceptedRequests w2 = acceptedRequests w"
    "dropped w2 = dropped w" "resets w2 = resets w" "finished w2 = finished w"
    by (subst w2, simp)+
  let ?s = "servers w ! nat i"
  from rng f2 have i: "nat i < length (servers w)" by (auto simp: inRange_def)
  with ok have sok: "server_ok (tm w) ?s" by (simp add: world_ok_def)
  have aok: "server_ok (tm w) (AddRequest ?s ?r)"
    using AddRequest_ok [OF sok, of ?r] by (simp add: newRequest_def)
  have wok: "world_ok w'"
    using ok aok ball_set_update [of "servers w" "server_ok (tm w)" "AddRequest ?s ?r" "nat i"]
    by (simp add: world_ok_def w' f2)
  have out: "Outstanding (AddRequest ?s ?r) =
               Outstanding ?s + (if length (Queue ?s) < maxQueue then 1 else 0)"
    using Outstanding_ok [OF sok] Outstanding_ok [OF aok] by (simp add: AddRequest_def)
  have "balance w' = balance w"
    using sum_list_map_update [OF i, of Outstanding "AddRequest ?s ?r"] out
    by (simp add: balance_def w' f2)
  with wok show ?thesis by (simp add: w' f2)
qed

lemma dispatchAll_ok:
  "world_ok w \<Longrightarrow> dispatchAll ds w = Inr w' \<Longrightarrow>
   world_ok w' \<and> balance w' = balance w \<and> tm w' = tm w \<and> resets w' = resets w \<and>
   finished w' = finished w"
proof (induction ds arbitrary: w)
  case Nil
  then show ?case by simp
next
  case (Cons d ds)
  from Cons.prems(2) obtain w1 where d: "dispatch w d = Inr w1"
    and r: "dispatchAll ds w1 = Inr w'"
    by (auto split: sum.splits)
  note d1 = dispatch_ok [OF Cons.prems(1) d]
  from d1 have "world_ok w1" by simp
  from Cons.IH [OF this r] d1 show ?case by simp
qed


lemma tickServers_ok:
  "world_ok w \<Longrightarrow> \<forall>i\<in>set is. i < length (servers w) \<Longrightarrow> tm w \<le> maxInt64 - 148 \<Longrightarrow>
   tickServers is w = Inr w' \<Longrightarrow>
   world_ok w' \<and> balance w' = balance w \<and> tm w' = tm w"
proof (induction "is" arbitrary: w)
  case Nil
  then show ?case by simp
next
  case (Cons i "is")
  let ?s = "servers w ! i"
  from Cons.prems(4) obtain dn s' where st: "Server_Tick (tm w) ?s = Inr (dn, s')"
    and r: "tickServers is (foldl RecordStats (w\<lparr>servers := (servers w)[i := s']\<rparr>) dn) = Inr w'"
    by (auto split: sum.splits)
  let ?w0 = "w\<lparr>servers := (servers w)[i := s']\<rparr>"
  let ?w1 = "foldl RecordStats ?w0 dn"
  note f = foldl_RecordStats [of ?w0 dn]
  from Cons.prems(2) have i: "i < length (servers w)" by simp
  from Cons.prems(1) have t0: "0 \<le> tm w" by (simp add: world_ok_def)
  from Cons.prems(1) i have sok: "server_ok (tm w) ?s" by (simp add: world_ok_def)
  note s1 = Server_Tick_ok [OF sok st t0 Cons.prems(3)]
  have svs: "\<forall>s\<in>set (servers ?w1). server_ok (tm ?w1) s"
    using Cons.prems(1) s1 ball_set_update [of "servers w" "server_ok (tm w)" s' i]
    by (simp add: f world_ok_def)
  have rec: "\<forall>(t, r)\<in>set (recorded ?w1). req_timed r \<and> Completed r \<le> t"
    using Cons.prems(1) s1 by (auto simp: f world_ok_def)
  have ok1: "world_ok ?w1" using svs rec t0 by (simp add: world_ok_def f)
  have bal: "balance ?w1 = balance w"
    using sum_list_map_update [OF i, of Outstanding s'] s1
    by (simp add: balance_def f)
  have idx: "\<forall>j\<in>set is. j < length (servers ?w1)"
    using Cons.prems(2) by (simp add: f)
  have tb: "tm ?w1 \<le> maxInt64 - 148" using Cons.prems(3) by (simp add: f)
  from Cons.IH [OF ok1 idx tb r] bal show ?case by (simp add: f)
qed

lemma dispatchAll_frame:
  "dispatchAll ds w = Inr w' \<Longrightarrow>
   tm w' = tm w \<and> resets w' = resets w \<and> finished w' = finished w \<and>
   recorded w' = recorded w"
proof (induction ds arbitrary: w)
  case Nil
  then show ?case by simp
next
  case (Cons d ds)
  from Cons.prems obtain w1 where d: "dispatch w d = Inr w1"
    and r: "dispatchAll ds w1 = Inr w'"
    by (auto split: sum.splits)
  from d have "tm w1 = tm w \<and> resets w1 = resets w \<and> finished w1 = finished w \<and>
      recorded w1 = recorded w"
    by (auto simp: dispatch_def Let_def chooseServer_def
        split: sum.splits if_splits option.splits policy.splits)
  with Cons.IH [OF r] show ?case by simp
qed

lemma tickServers_frame:
  "tickServers is w = Inr w' \<Longrightarrow>
   tm w' = tm w \<and> resets w' = resets w \<and> finished w' = finished w"
proof (induction "is" arbitrary: w)
  case Nil
  then show ?case by simp
next
  case (Cons i "is")
  from Cons.prems obtain dn s' where
    r: "tickServers is (foldl RecordStats (w\<lparr>servers := (servers w)[i := s']\<rparr>) dn) = Inr w'"
    by (auto split: sum.splits)
  from Cons.IH [OF r] foldl_RecordStats [of "w\<lparr>servers := (servers w)[i := s']\<rparr>" dn]
  show ?case by simp
qed

lemma Tick_frame:
  assumes "Tick a w = Inr w'"
  shows "tm w' = wrap64 (tm w + 1) \<and> resets w' = resets w \<and> finished w' = finished w"
proof -
  let ?w1 = "w\<lparr>tm := wrap64 (tm w + 1)\<rparr>"
  from assms obtain w2 where
    d: "(if tm ?w1 \<le> requestLimit then dispatchAll a ?w1 else Inr ?w1) = Inr w2"
    and t: "tickServers [0..<length (servers w2)] w2 = Inr w'"
    by (auto simp: Tick_def Let_def split: sum.splits)
  have "tm w2 = tm ?w1 \<and> resets w2 = resets ?w1 \<and> finished w2 = finished ?w1"
    using d dispatchAll_frame [of a ?w1 w2] by (auto split: if_splits)
  with tickServers_frame [OF t] show ?thesis by simp
qed

lemma Tick_ok:
  assumes ok: "world_ok w" and b: "tm w \<le> maxInt64 - 149" and t: "Tick a w = Inr w'"
  shows "world_ok w' \<and> balance w' = balance w \<and> tm w' = tm w + 1"
proof -
  let ?w1 = "w\<lparr>tm := wrap64 (tm w + 1)\<rparr>"
  from ok have t0: "0 \<le> tm w" by (simp add: world_ok_def)
  have w: "wrap64 (tm w + 1) = tm w + 1"
    using t0 b by (intro wrap64_id) (simp_all add: maxInt64_def)
  have ok1: "world_ok ?w1"
    using ok t0 w server_ok_mono [of "tm w" _ "tm w + 1"] by (auto simp: world_ok_def)
  have b1: "balance ?w1 = balance w" by (simp add: balance_def)
  from t obtain w2 where
    d: "(if tm ?w1 \<le> requestLimit then dispatchAll a ?w1 else Inr ?w1) = Inr w2"
    and ts: "tickServers [0..<length (servers w2)] w2 = Inr w'"
    by (auto simp: Tick_def Let_def split: sum.splits)
  have ok2: "world_ok w2 \<and> balance w2 = balance ?w1 \<and> tm w2 = tm ?w1"
    using d dispatchAll_ok [OF ok1, of a w2] ok1 by (auto split: if_splits)
  then have tb: "tm w2 \<le> maxInt64 - 148" using w b by simp
  have idx: "\<forall>i\<in>set [0..<length (servers w2)]. i < length (servers w2)" by simp
  from tickServers_ok [OF _ idx tb ts] ok2 b1 w show ?thesis by simp
qed


lemma main_iter_frame:
  assumes "main_iter a w = Inr w'"
  shows "\<exists>w1. Tick a w = Inr w1 \<and> tm w' = tm w1 \<and> servers w' = servers w1 \<and>
           recorded w' = recorded w1 \<and> dropped w' = dropped w1 \<and>
           (finished w' \<longrightarrow> requestLimit \<le> tm w') \<and>
           (if tm w1 = requestLimit div 2
            then resets w' = Suc (resets w1) \<and> totalRequests w' = 0 \<and>
                 acceptedRequests w' = 0 \<and> totalCached w' = 0 \<and> totalQueued w' = 0 \<and>
                 totalTime w' = 0 \<and> tmx w' = 0
            else resets w' = resets w1 \<and> totalRequests w' = totalRequests w1 \<and>
                 acceptedRequests w' = acceptedRequests w1 \<and> totalCached w' = totalCached w1 \<and>
                 totalQueued w' = totalQueued w1 \<and> totalTime w' = totalTime w1 \<and>
                 tmx w' = tmx w1 + 1)"
proof -
  from assms obtain w1 where t: "Tick a w = Inr w1"
    by (auto simp: main_iter_def split: sum.splits)
  show ?thesis
  proof (cases "tm w1 = requestLimit div 2")
    case True
    with assms t show ?thesis
      by (auto simp: main_iter_def Let_def midRunReset_def)
  next
    case False
    with assms t show ?thesis
      by (auto simp: main_iter_def Let_def)
  qed
qed

lemma main_iter_ok:
  assumes ok: "world_ok w" and b: "tm w \<le> maxInt64 - 149" and m: "main_iter a w = Inr w'"
  shows "world_ok w' \<and> tm w' = tm w + 1 \<and>
         (tm w + 1 \<noteq> requestLimit div 2 \<longrightarrow> balance w' = balance w)"
proof -
  from main_iter_frame [OF m] obtain w1 where t: "Tick a w = Inr w1"
    and f: "tm w' = tm w1" "servers w' = servers w1" "recorded w' = recorded w1"
      "dropped w' = dropped w1"
      "tm w1 \<noteq> requestLimit div 2 \<longrightarrow>
         totalRequests w' = totalRequests w1 \<and> acceptedRequests w' = acceptedRequests w1"
    by (auto split: if_splits)
  note t1 = Tick_ok [OF ok b t]
  from t1 f have "world_ok w'" by (auto simp: world_ok_def)
  moreover have "tm w + 1 \<noteq> requestLimit div 2 \<longrightarrow> balance w' = balance w"
    using t1 f by (auto simp: balance_def)
  ultimately show ?thesis using t1 f by simp
qed

lemma main_loop_ok:
  "world_ok w \<Longrightarrow> main_loop inps w = Inr w' \<Longrightarrow> tm w + int (length inps) \<le> maxInt64 - 148 \<Longrightarrow>
   world_ok w' \<and> tm w' \<le> tm w + int (length inps) \<and>
   (tm w + int (length inps) < requestLimit div 2 \<longrightarrow> balance w' = balance w)"
proof (induction inps arbitrary: w)
  case Nil
  then show ?case by simp
next
  case (Cons a as)
  show ?case
  proof (cases "finished w")
    case True
    with Cons.prems show ?thesis by simp
  next
    case False
    with Cons.prems(2) obtain w1 where m: "main_iter a w = Inr w1"
      and r: "main_loop as w1 = Inr w'"
      by (auto split: sum.splits)
    from Cons.prems(3) have b: "tm w \<le> maxInt64 - 149" by simp
    note m1 = main_iter_ok [OF Cons.prems(1) b m]
    from m1 have ok1: "world_ok w1" and t1: "tm w1 = tm w + 1" by simp_all
    from Cons.prems(3) t1 have b1: "tm w1 + int (length as) \<le> maxInt64 - 148" by simp
    from Cons.IH [OF ok1 r b1] m1 show ?thesis by auto
  qed
qed

lemma main_loop_reset_ok:
  "reset_ok w \<Longrightarrow> main_loop inps w = Inr w' \<Longrightarrow> tm w + int (length inps) \<le> maxInt64 \<Longrightarrow>
   reset_ok w'"
proof (induction inps arbitrary: w)
  case Nil
  then show ?case by simp
next
  case (Cons a as)
  show ?case
  proof (cases "finished w")
    case True
    with Cons.prems show ?thesis by simp
  next
    case False
    with Cons.prems(2) obtain w1 where m: "main_iter a w = Inr w1"
      and r: "main_loop as w1 = Inr w'"
      by (auto split: sum.splits)
    from main_iter_frame [OF m] obtain w0 where t: "Tick a w = Inr w0"
      and f: "tm w1 = tm w0" "finished w1 \<longrightarrow> requestLimit \<le> tm w1"
        "if tm w0 = requestLimit div 2 then resets w1 = Suc (resets w0)
         else resets w1 = resets w0"
      by (auto split: if_splits)
    from Cons.prems(1) have t0: "0 \<le> tm w" by (simp add: reset_ok_def)
    have w: "wrap64 (tm w + 1) = tm w + 1"
      using t0 Cons.prems(3) by (intro wrap64_id) (simp_all add: maxInt64_def)
    from Tick_frame [OF t] w have tf: "tm w0 = tm w + 1" "resets w0 = resets w" by simp_all
    have ok1: "reset_ok w1"
      using Cons.prems(1) f tf by (auto simp: reset_ok_def split: if_splits)
    from Cons.prems(3) f tf have "tm w1 + int (length as) \<le> maxInt64" by simp
    from Cons.IH [OF ok1 r this] show ?thesis .
  qed
qed

lemma initWorld_ok: "world_ok (initWorld p)"
  using newServer_ok by (simp add: world_ok_def initWorld_def)

lemma initWorld_balance: "balance (initWorld p) = 0"
proof -
  have "Outstanding newServer = 0" by (simp add: Outstanding_def newServer_def wrap64_def)
  then have "sum_list (map Outstanding (replicate n newServer)) = 0" for n
    by (induction n) simp_all
  then show ?thesis by (simp add: balance_def initWorld_def)
qed

lemma initWorld_reset_ok: "reset_ok (initWorld p)"
  by (simp add: reset_ok_def initWorld_def requestLimit_def)

subsection \<open>The candidates of modchoose2\<close>

lemma even_go_rem: "even b \<Longrightarrow> even (go_rem a b) \<longleftrightarrow> even a"
proof -
  assume b: "even b"
  then have "even (\<bar>a\<bar> mod \<bar>b\<bar>) \<longleftrightarrow> even a"
    by (simp add: dvd_mod_iff)
  then show ?thesis
    by (cases "a = 0"; cases "a < 0") (simp_all add: go_rem_def)
qed

lemma even_wrap64: "even (wrap64 x) \<longleftrightarrow> even x"
proof -
  have "even ((x + 2 ^ 63) mod 2 ^ 64) \<longleftrightarrow> even (x + 2 ^ 63)"
    by (rule dvd_mod_iff) simp
  then show ?thesis by (simp add: wrap64_def)
qed

lemma mc_candidates_differ: "mc_first r \<noteq> mc_second r"
proof -
  have f: "even (mc_first r) \<longleftrightarrow> even (Item r)"
    by (simp add: mc_first_def even_go_rem numServers_def)
  have "even (mc_second r) \<longleftrightarrow> even (mc_first r * Item r + 1)"
    by (simp add: mc_second_def even_go_rem even_wrap64 numServers_def)
  with f have "even (mc_second r) \<longleftrightarrow> odd (Item r)" by simp
  with f show ?thesis by metis
qed

subsection \<open>Evaluation of the examples\<close>

lemma ex_HandleRequest: "HandleRequest 1 newServer exReq = Inr exAdmitted"
  by code_simp

lemma ex_CompleteRequest:
  "CompleteRequest exAdmitted 0 = Inr (exReq\<lparr>Accepted := 1, Completed := 101\<rparr>, exCompleted)"
  by code_simp

lemma ex_Server_Tick:
  "Server_Tick 101 exAdmitted = Inr ([exReq\<lparr>Accepted := 1, Completed := 101\<rparr>], exCompleted)"
  by code_simp

lemma ex_Server_Tick_admit:
  "Server_Tick 1 (AddRequest newServer exReq) = Inr ([], exAdmitted)"
  by code_simp

lemma ex_HandleRequest_half: "HandleRequest 1 exHalfFull exReq = Inr exFiveFull"
  by code_simp

lemma ex_HandleRequest_five: "HandleRequest 1 exFiveFull exReq = Inr exSixFull"
  by code_simp

lemma ex_HandleRequest_warm: "HandleRequest 1 exWarm exReq2 = Inr exWarmAdmitted"
  by code_simp

lemma ex_first_tick: "main_loop [[(5, 0)]] (initWorld (Some ModuloHash)) = Inr exOneTick"
  by code_simp

lemma ex_release_tick: "main_loop [[]] exBusy = Inr exDone"
  by code_simp

lemma ex_reset_tick: "main_iter [] exQuiet = Inr exReset"
  by code_simp

lemma exBusy_ok: "world_ok exBusy"
  by code_simp

lemma exBusy_balance: "balance exBusy = 0"
  by code_simp

lemma exDone_recorded: "recorded exDone = [(101, exReq\<lparr>Accepted := 1, Completed := 101\<rparr>)]"
  by (simp add: exDone_def)

section \<open>Claims about one server\<close>

text \<open>
  Claim C9. Dropping an arrival has no effect on the server: when the queue holds
  \<open>maxQueue\<close> requests, \<open>AddRequest\<close> returns the server exactly as it was (queue, slots,
  \<open>SlotsUsed\<close> and cache).
\<close>

theorem AddRequest_full_unchanged:
  "length (Queue s) = maxQueue \<Longrightarrow> AddRequest s r = s"
  by (simp add: AddRequest_def)

theorem AddRequest_full_unchanged_witness:
  "length (Queue exFullQueue) = maxQueue \<and> AddRequest exFullQueue exReq = exFullQueue"
proof -
  have h: "length (Queue exFullQueue) = maxQueue"
    by (simp add: exFullQueue_def maxQueue_def)
  from AddRequest_full_unchanged [OF h] h show ?thesis by simp
qed

text \<open>
  Claim C5. Under the server invariant the panic of \<open>FindSlot\<close> cannot happen: whenever
  the guard \<open>SlotsUsed < numSlots\<close> of the admission loop holds, \<open>FindSlot\<close> returns the
  index of a slot that is not full, and a whole \<open>Server_Tick\<close> returns without a panic.
\<close>

theorem FindSlot_never_panics:
  "server_inv s \<Longrightarrow>
   (SlotsUsed s < int numSlots \<longrightarrow>
      (\<exists>i. FindSlot s = Inr i \<and> i < numSlots \<and> \<not> Full (Slots s ! i))) \<and>
   (\<exists>ret s'. Server_Tick now s = Inr (ret, s'))"
  using FindSlot_free [of s] Server_Tick_no_panic [of s now]
  by (simp add: server_inv_def)

theorem FindSlot_never_panics_witness:
  "server_inv (AddRequest newServer exReq) \<and>
   SlotsUsed (AddRequest newServer exReq) < int numSlots \<and>
   FindSlot (AddRequest newServer exReq) = Inr 0 \<and>
   \<not> Full (Slots (AddRequest newServer exReq) ! 0) \<and>
   Server_Tick 1 (AddRequest newServer exReq) = Inr ([], exAdmitted)"
proof -
  have h: "server_inv (AddRequest newServer exReq)"
    by (simp add: AddRequest_inv newServer_inv)
  have u: "SlotsUsed (AddRequest newServer exReq) < int numSlots" by code_simp
  have f: "FindSlot (AddRequest newServer exReq) = Inr 0" by code_simp
  from FindSlot_never_panics [OF h, of 1] u f have "\<not> Full (Slots (AddRequest newServer exReq) ! 0)"
    by auto
  with h u f ex_Server_Tick_admit show ?thesis by simp
qed

text \<open>
  Claim C1, as stated, fails: \<open>HandleRequest\<close> reads \<open>SlotsUsed\<close> for the surcharge before
  it increments the field. A server with four of its eight slots in use admits a request
  at tick 1: the count after the admission is 5, the claimed completion tick is 113, the
  stored one is 101. The surcharge is also not monotone across different base times: a
  miss admitted at a count of 5 is surcharged 12 ticks, a hit admitted next at 6 only 2.
\<close>

theorem completion_after_admission_counterexample:
  "HandleRequest 1 exHalfFull exReq = Inr exFiveFull \<and>
   SlotsUsed exHalfFull = 4 \<and> SlotsUsed exFiveFull = 5 \<and>
   Accepted (Req (Slots exFiveFull ! 4)) = 1 \<and>
   Completed (Req (Slots exFiveFull ! 4)) = 101 \<and>
   claimedCompletion 1 (baseTime False) (SlotsUsed exFiveFull) = 113 \<and>
   loadedTime (baseTime False) 5 - baseTime False = 12 \<and>
   loadedTime (baseTime True) 6 - baseTime True = 2"
proof -
  have "SlotsUsed exHalfFull = 4 \<and> SlotsUsed exFiveFull = 5 \<and>
        Accepted (Req (Slots exFiveFull ! 4)) = 1 \<and>
        Completed (Req (Slots exFiveFull ! 4)) = 101"
    by code_simp
  moreover have "claimedCompletion 1 (baseTime False) (SlotsUsed exFiveFull) = 113"
    by (simp add: claimedCompletion_def baseTime_def exFiveFull_def numSlots_def
        uncachedHandleTime_def)
  moreover have "loadedTime (baseTime False) 5 - baseTime False = 12"
    by code_simp
  moreover have "loadedTime (baseTime True) 6 - baseTime True = 2"
    by code_simp
  ultimately show ?thesis using ex_HandleRequest_half by simp
qed

text \<open>
  Claim C1, amended. When \<open>HandleRequest\<close> admits a request at tick \<open>now\<close> into the slot
  \<open>FindSlot\<close> returns, with \<open>p\<close> the slots-in-use count before the admission
  (\<open>0 \<le> p < numSlots\<close>) and \<open>b\<close> the base time (\<open>cachedHandleTime\<close> on a hit,
  \<open>uncachedHandleTime\<close> on a miss), the stored completion tick is
  \<open>now + b + (b div numSlots) * (p - numSlots div 2)\<close> if \<open>p > numSlots div 2\<close> and
  \<open>now + b\<close> otherwise; the count grows by one, and for one and the same base time the
  completion tick does not decrease from one admission to the next.
\<close>

theorem completion_before_admission:
  assumes "HandleRequest now s r = Inr s'" and "FindSlot s = Inr i"
    and "0 \<le> SlotsUsed s" and "SlotsUsed s < int numSlots"
    and "0 \<le> now" and "now \<le> maxInt64 - 148"
  shows "Full (Slots s' ! i) \<and> Accepted (Req (Slots s' ! i)) = now \<and>
         Completed (Req (Slots s' ! i)) =
           claimedCompletion now (baseTime (Item r \<in> set (ll (Cache s)))) (SlotsUsed s) \<and>
         SlotsUsed s' = SlotsUsed s + 1 \<and>
         (\<forall>b\<in>{cachedHandleTime, uncachedHandleTime}.
            claimedCompletion now b (SlotsUsed s) \<le> claimedCompletion now b (SlotsUsed s'))"
proof -
  let ?c = "Item r \<in> set (ll (Cache s))"
  note sl = HandleRequest_slot [OF assms(1,2)]
  have i: "i < length (Slots s)" using FindSlot_Inr [OF assms(2)] by simp
  have u: "0 \<le> SlotsUsed s" "SlotsUsed s \<le> int numSlots" using assms(3,4) by simp_all
  note lt = loadedTime_small [OF u, of ?c] and lb = loadedTime_bounds [OF u, of ?c]
  have w: "wrap64 (now + loadedTime (baseTime ?c) (SlotsUsed s))
             = now + loadedTime (baseTime ?c) (SlotsUsed s)"
    using lb assms(5,6) by (intro wrap64_id) (simp_all add: maxInt64_def cachedHandleTime_def)
  have su: "SlotsUsed s' = SlotsUsed s + 1"
    using sl assms(3,4) wrap64_id [of "SlotsUsed s + 1"] by (simp add: numSlots_def)
  have c: "Completed (Req (Slots s' ! i)) =
             claimedCompletion now (baseTime ?c) (SlotsUsed s)"
    using sl i w lt by (simp add: claimedCompletion_def)
  have mono: "\<forall>b\<in>{cachedHandleTime, uncachedHandleTime}.
            claimedCompletion now b (SlotsUsed s) \<le> claimedCompletion now b (SlotsUsed s')"
    using su assms(3)
    by (auto simp: claimedCompletion_def cachedHandleTime_def uncachedHandleTime_def
        numSlots_def)
  from sl i c su mono show ?thesis by simp
qed

theorem completion_before_admission_witness:
  "HandleRequest 1 exFiveFull exReq = Inr exSixFull \<and> FindSlot exFiveFull = Inr 5 \<and>
   (0::int) \<le> SlotsUsed exFiveFull \<and> SlotsUsed exFiveFull < int numSlots \<and>
   (0::int) \<le> 1 \<and> (1::int) \<le> maxInt64 - 148 \<and>
   SlotsUsed exFiveFull = 5 \<and> SlotsUsed exSixFull = 6 \<and>
   Completed (Req (Slots exSixFull ! 5)) = 113 \<and>
   claimedCompletion 1 (baseTime (Item exReq \<in> set (ll (Cache exFiveFull))))
     (SlotsUsed exFiveFull) = 113"
proof -
  have f: "FindSlot exFiveFull = Inr 5" by code_simp
  have u: "(0::int) \<le> SlotsUsed exFiveFull" "SlotsUsed exFiveFull < int numSlots"
    "SlotsUsed exFiveFull = 5" "SlotsUsed exSixFull = 6"
    by (simp_all add: exFiveFull_def exSixFull_def numSlots_def)
  have t: "(0::int) \<le> 1" "(1::int) \<le> maxInt64 - 148" by (simp_all add: maxInt64_def)
  have c: "Completed (Req (Slots exSixFull ! 5)) = 113" by code_simp
  from completion_before_admission [OF ex_HandleRequest_five f u(1,2) t] c
  have "claimedCompletion 1 (baseTime (Item exReq \<in> set (ll (Cache exFiveFull))))
     (SlotsUsed exFiveFull) = 113" by simp
  with ex_HandleRequest_five f u t c show ?thesis by simp
qed

text \<open>
  Claim C2, as stated, fails: the lookup of \<open>HandleRequest\<close> is \<^verbatim>\<open>Cache.Get\<close>, which moves a
  key that is present to the front of the recency list. A cache holding the keys 1, 2
  (1 most recent) holds them in the order 2, 1 after a request for key 2 is admitted.
\<close>

theorem lookup_changes_recency_counterexample:
  "HandleRequest 1 exWarm exReq2 = Inr exWarmAdmitted \<and>
   ll (Cache exWarm) = [1, 2] \<and> ll (Cache exWarmAdmitted) = [2, 1] \<and>
   Cache exWarmAdmitted \<noteq> Cache exWarm"
  using ex_HandleRequest_warm by (simp add: exWarm_def exWarmAdmitted_def)

text \<open>
  Claim C2, amended. The lookup returns whether the key is present and leaves the set of
  cached keys, their number and \<open>MaxEntries\<close> unchanged; on a miss the cache is unchanged
  altogether, on a hit the key moves to the front of the recency order and the other keys
  keep their order. \<open>HandleRequest\<close> stores the cache as the lookup returns it.
\<close>

theorem lookup_moves_hit_to_front:
  "fst (lru_Get c k) = (k \<in> set (ll c)) \<and>
   set (ll (snd (lru_Get c k))) = set (ll c) \<and>
   length (ll (snd (lru_Get c k))) = length (ll c) \<and>
   MaxEntries (snd (lru_Get c k)) = MaxEntries c \<and>
   (k \<notin> set (ll c) \<longrightarrow> snd (lru_Get c k) = c) \<and>
   (k \<in> set (ll c) \<longrightarrow> ll (snd (lru_Get c k)) = k # remove1 k (ll c)) \<and>
   (\<forall>s'. HandleRequest now s r = Inr s' \<longrightarrow> Cache s' = snd (lru_Get (Cache s) (Item r)))"
proof -
  have a: "fst (lru_Get c k) = (k \<in> set (ll c))"
    by (simp add: lru_Get_def)
  have b: "set (ll (snd (lru_Get c k))) = set (ll c)"
    by (simp add: lru_Get_def set_MoveToFront)
  have l: "length (ll (snd (lru_Get c k))) = length (ll c)"
    by (simp add: lru_Get_def length_MoveToFront)
  have m: "MaxEntries (snd (lru_Get c k)) = MaxEntries c"
    by (simp add: lru_Get_def)
  have n: "k \<notin> set (ll c) \<longrightarrow> snd (lru_Get c k) = c"
    by (simp add: lru_Get_def)
  have h: "k \<in> set (ll c) \<longrightarrow> ll (snd (lru_Get c k)) = k # remove1 k (ll c)"
    by (simp add: lru_Get_def MoveToFront_def)
  have hr: "\<forall>s'. HandleRequest now s r = Inr s' \<longrightarrow> Cache s' = snd (lru_Get (Cache s) (Item r))"
    by (auto simp: HandleRequest_def Let_def split: sum.splits prod.splits)
  from a b l m n h hr show ?thesis by blast
qed

theorem lookup_moves_hit_to_front_witness:
  "(2::int) \<in> set (ll (Cache exWarm)) \<and> (5::int) \<notin> set (ll (Cache exWarm)) \<and>
   fst (lru_Get (Cache exWarm) 2) \<and> \<not> fst (lru_Get (Cache exWarm) 5) \<and>
   ll (snd (lru_Get (Cache exWarm) 2)) = [2, 1] \<and>
   snd (lru_Get (Cache exWarm) 5) = Cache exWarm \<and>
   HandleRequest 1 exWarm exReq2 = Inr exWarmAdmitted \<and>
   Cache exWarmAdmitted = snd (lru_Get (Cache exWarm) (Item exReq2))"
proof -
  have m: "(2::int) \<in> set (ll (Cache exWarm))" "(5::int) \<notin> set (ll (Cache exWarm))"
    "remove1 (2::int) (ll (Cache exWarm)) = [1]"
    by (simp_all add: exWarm_def)
  from lookup_moves_hit_to_front [of "Cache exWarm" 2 1 exWarm exReq2]
    lookup_moves_hit_to_front [of "Cache exWarm" 5 1 exWarm exReq2]
    m ex_HandleRequest_warm
  show ?thesis by simp
qed

section \<open>Claims about the simulation\<close>

text \<open>
  The theorems about runs are stated for \<open>main_loop\<close> started in any world that satisfies
  \<open>world_ok\<close>, which \<open>initWorld\<close> does, on the draws of any finite number of ticks. The
  bounds on \<open>tm w + length inps\<close> keep the 64-bit clock from wrapping around.
\<close>

text \<open>
  Claim C6. \<open>server_inv\<close> says that \<open>SlotsUsed\<close> is the number of slots whose \<open>Full\<close> flag
  is set and that \<open>0 \<le> SlotsUsed \<le> numSlots\<close>. It holds of a new server and is preserved by
  \<open>AddRequest\<close>, by \<open>HandleRequest\<close>, by \<open>CompleteRequest\<close> on a full slot (the only way
  \<open>Server_Tick\<close> calls it) and by a whole \<open>Server_Tick\<close>; so it holds of every server
  in every world of a run.
\<close>

theorem server_inv_preserved:
  "server_inv newServer \<and>
   (server_inv s \<longrightarrow>
      server_inv (AddRequest s r) \<and>
      (\<forall>s'. HandleRequest now s r = Inr s' \<longrightarrow> server_inv s') \<and>
      (\<forall>i r' s'. Full (Slots s ! i) \<and> CompleteRequest s i = Inr (r', s') \<longrightarrow> server_inv s') \<and>
      (\<forall>ret s'. Server_Tick now s = Inr (ret, s') \<longrightarrow> server_inv s')) \<and>
   world_ok (initWorld p) \<and>
   (world_ok w \<and> main_loop inps w = Inr w' \<and>
    tm w + int (length inps) \<le> maxInt64 - 148 \<longrightarrow>
      (\<forall>sv\<in>set (servers w'). server_inv sv))"
proof -
  have "\<forall>sv\<in>set (servers w'). server_inv sv"
    if h: "world_ok w" "main_loop inps w = Inr w'"
      "tm w + int (length inps) \<le> maxInt64 - 148"
  proof -
    from main_loop_ok [OF h] have "world_ok w'" by simp
    then show ?thesis by (simp add: world_ok_def server_ok_def)
  qed
  with newServer_inv AddRequest_inv HandleRequest_inv CompleteRequest_inv Server_Tick_inv
    initWorld_ok
  show ?thesis by blast
qed

theorem server_inv_preserved_witness:
  "server_inv newServer \<and> server_inv (AddRequest newServer exReq) \<and>
   HandleRequest 1 newServer exReq = Inr exAdmitted \<and> server_inv exAdmitted \<and>
   Full (Slots exAdmitted ! 0) \<and>
   CompleteRequest exAdmitted 0 = Inr (exReq\<lparr>Accepted := 1, Completed := 101\<rparr>, exCompleted) \<and>
   server_inv exCompleted \<and>
   Server_Tick 101 exAdmitted = Inr ([exReq\<lparr>Accepted := 1, Completed := 101\<rparr>], exCompleted) \<and>
   SlotsUsed exAdmitted = 1 \<and> fullCount (Slots exAdmitted) = 1 \<and>
   world_ok exBusy \<and> main_loop [[]] exBusy = Inr exDone \<and>
   tm exBusy + int (length [[] :: (int \<times> int) list]) \<le> maxInt64 - 148 \<and>
   list_all server_inv (servers exDone)"
proof -
  note p = server_inv_preserved [where s = newServer and r = exReq and now = 1
      and w = exBusy and inps = "[[]]" and w' = exDone]
  have t: "tm exBusy + int (length [[] :: (int \<times> int) list]) \<le> maxInt64 - 148"
    by (simp add: exBusy_def maxInt64_def)
  from p exBusy_ok ex_release_tick t have "\<forall>sv\<in>set (servers exDone). server_inv sv"
    by blast
  then have la: "list_all server_inv (servers exDone)" by (simp add: list_all_iff)
  have a: "server_inv exAdmitted" using p ex_HandleRequest by blast
  have f: "Full (Slots exAdmitted ! 0)" by (simp add: exAdmitted_def)
  have c: "server_inv exCompleted"
    using server_inv_preserved [where s = exAdmitted and r = exReq and now = 101]
      a f ex_CompleteRequest by blast
  have u: "SlotsUsed exAdmitted = 1 \<and> fullCount (Slots exAdmitted) = 1"
    using a by (simp add: server_inv_def exAdmitted_def)
  from p a f c u ex_HandleRequest ex_CompleteRequest ex_Server_Tick
    exBusy_ok ex_release_tick t la
  show ?thesis by blast
qed

text \<open>
  Claim C3, as stated, fails: \<open>acceptedRequests\<close> is incremented by \<^verbatim>\<open>RecordStats\<close>, that is
  when a request is released, so a request that is queued or in a slot is counted as
  generated and neither as accepted nor as dropped. After the first tick of a run with
  one arrival the counters are 1, 0 and 0.
\<close>

theorem conservation_without_outstanding_counterexample:
  "main_loop [[(5, 0)]] (initWorld (Some ModuloHash)) = Inr exOneTick \<and>
   totalRequests exOneTick = 1 \<and> acceptedRequests exOneTick = 0 \<and> dropped exOneTick = 0 \<and>
   totalRequests exOneTick \<noteq> acceptedRequests exOneTick + dropped exOneTick"
  using ex_first_tick by (simp add: exOneTick_def initWorld_def)

text \<open>
  Claim C3, amended. At every observation point before the tick \<open>requestLimit div 2\<close> of
  the mid-run reset, \<open>totalRequests = acceptedRequests + dropped + \<close> the sum of
  \<open>Outstanding\<close> over all servers, where \<open>acceptedRequests\<close> counts the released requests
  and \<open>dropped\<close> the arrivals rejected at a full queue.
\<close>

theorem conservation_with_outstanding:
  "world_ok (initWorld p) \<and> balance (initWorld p) = 0 \<and>
   (world_ok w \<and> balance w = 0 \<and> main_loop inps w = Inr w' \<and>
    tm w + int (length inps) < requestLimit div 2 \<longrightarrow>
      totalRequests w' =
        acceptedRequests w' + dropped w' + sum_list (map Outstanding (servers w')))"
proof -
  have "totalRequests w' =
          acceptedRequests w' + dropped w' + sum_list (map Outstanding (servers w'))"
    if h: "world_ok w" "balance w = 0" "main_loop inps w = Inr w'"
      "tm w + int (length inps) < requestLimit div 2"
  proof -
    from h(4) have "tm w + int (length inps) \<le> maxInt64 - 148"
      by (simp add: requestLimit_def maxInt64_def)
    from main_loop_ok [OF h(1,3) this] h(2,4) have "balance w' = 0" by simp
    then show ?thesis by (simp add: balance_def)
  qed
  with initWorld_ok initWorld_balance show ?thesis by blast
qed

theorem conservation_with_outstanding_witness:
  "world_ok exBusy \<and> balance exBusy = 0 \<and> main_loop [[]] exBusy = Inr exDone \<and>
   tm exBusy + int (length [[] :: (int \<times> int) list]) < requestLimit div 2 \<and>
   totalRequests exDone = 1 \<and> acceptedRequests exDone = 1 \<and> dropped exDone = 0 \<and>
   sum_list (map Outstanding (servers exDone)) = 0"
proof -
  have t: "tm exBusy + int (length [[] :: (int \<times> int) list]) < requestLimit div 2"
    by (simp add: exBusy_def requestLimit_def)
  have v: "totalRequests exDone = 1 \<and> acceptedRequests exDone = 1 \<and> dropped exDone = 0"
    by (simp add: exDone_def exBusy_def exOneTick_def initWorld_def)
  from conservation_with_outstanding [of "Some ModuloHash" exBusy "[[]]" exDone]
    exBusy_ok exBusy_balance ex_release_tick t v
  have "sum_list (map Outstanding (servers exDone)) = 0" by simp
  with exBusy_ok exBusy_balance ex_release_tick t v show ?thesis by simp
qed

text \<open>
  Claim C7. Every request passed to \<^verbatim>\<open>RecordStats\<close> has \<open>Sent \<le> Accepted \<le> Completed\<close>.
\<close>

theorem released_requests_monotonic_time:
  "world_ok (initWorld p) \<and>
   (world_ok w \<and> main_loop inps w = Inr w' \<and>
    tm w + int (length inps) \<le> maxInt64 - 148 \<longrightarrow>
      (\<forall>(t, r)\<in>set (recorded w'). Sent r \<le> Accepted r \<and> Accepted r \<le> Completed r))"
proof -
  have "\<forall>(t, r)\<in>set (recorded w'). Sent r \<le> Accepted r \<and> Accepted r \<le> Completed r"
    if h: "world_ok w" "main_loop inps w = Inr w'"
      "tm w + int (length inps) \<le> maxInt64 - 148"
  proof -
    from main_loop_ok [OF h] have "world_ok w'" by simp
    then show ?thesis
      by (auto simp: world_ok_def req_timed_def cachedHandleTime_def)
  qed
  with initWorld_ok show ?thesis by blast
qed

theorem released_requests_monotonic_time_witness:
  "world_ok exBusy \<and> main_loop [[]] exBusy = Inr exDone \<and>
   tm exBusy + int (length [[] :: (int \<times> int) list]) \<le> maxInt64 - 148 \<and>
   recorded exDone = [(101, exReq\<lparr>Accepted := 1, Completed := 101\<rparr>)] \<and>
   Sent (exReq\<lparr>Accepted := 1, Completed := 101\<rparr>) \<le> Accepted (exReq\<lparr>Accepted := 1, Completed := 101\<rparr>) \<and>
   Accepted (exReq\<lparr>Accepted := 1, Completed := 101\<rparr>) \<le> Completed (exReq\<lparr>Accepted := 1, Completed := 101\<rparr>)"
proof -
  have t: "tm exBusy + int (length [[] :: (int \<times> int) list]) \<le> maxInt64 - 148"
    by (simp add: exBusy_def maxInt64_def)
  from released_requests_monotonic_time [of "Some ModuloHash" exBusy "[[]]" exDone]
    exBusy_ok ex_release_tick t
  have "\<forall>(t, r)\<in>set (recorded exDone). Sent r \<le> Accepted r \<and> Accepted r \<le> Completed r"
    by blast
  then have "Sent (exReq\<lparr>Accepted := 1, Completed := 101\<rparr>) \<le> Accepted (exReq\<lparr>Accepted := 1, Completed := 101\<rparr>) \<and>
   Accepted (exReq\<lparr>Accepted := 1, Completed := 101\<rparr>) \<le> Completed (exReq\<lparr>Accepted := 1, Completed := 101\<rparr>)"
    unfolding exDone_recorded by simp
  with exBusy_ok ex_release_tick t exDone_recorded show ?thesis by blast
qed

text \<open>
  Claim C10. \<open>HandleRequest\<close> at tick \<open>now\<close> stamps \<open>Accepted = now\<close> and a completion tick
  of at least \<open>Accepted + cachedHandleTime\<close>, with \<open>cachedHandleTime > 0\<close>. Every request
  passed to \<^verbatim>\<open>RecordStats\<close> at tick \<open>t\<close> has \<open>Accepted + cachedHandleTime \<le> Completed \<le> t\<close>,
  so it was accepted at a tick strictly before the tick of its release.
\<close>

theorem release_after_admission_tick:
  "0 < cachedHandleTime \<and> world_ok (initWorld p) \<and>
   (server_inv s \<and> HandleRequest now s r = Inr s' \<and> FindSlot s = Inr i \<and>
    0 \<le> now \<and> now \<le> maxInt64 - 148 \<longrightarrow>
      Accepted (Req (Slots s' ! i)) = now \<and>
      Accepted (Req (Slots s' ! i)) + cachedHandleTime \<le> Completed (Req (Slots s' ! i))) \<and>
   (world_ok w \<and> main_loop inps w = Inr w' \<and>
    tm w + int (length inps) \<le> maxInt64 - 148 \<longrightarrow>
      (\<forall>(t, r)\<in>set (recorded w').
         Accepted r + cachedHandleTime \<le> Completed r \<and> Completed r \<le> t \<and> Accepted r < t))"
proof -
  have "\<forall>(t, r)\<in>set (recorded w').
         Accepted r + cachedHandleTime \<le> Completed r \<and> Completed r \<le> t \<and> Accepted r < t"
    if h: "world_ok w" "main_loop inps w = Inr w'"
      "tm w + int (length inps) \<le> maxInt64 - 148"
  proof -
    from main_loop_ok [OF h] have "world_ok w'" by simp
    then show ?thesis
      by (auto simp: world_ok_def req_timed_def cachedHandleTime_def)
  qed
  moreover have "0 < cachedHandleTime" by (simp add: cachedHandleTime_def)
  moreover have "Accepted (Req (Slots s' ! i)) = now \<and>
      Accepted (Req (Slots s' ! i)) + cachedHandleTime \<le> Completed (Req (Slots s' ! i))"
    if "server_inv s" "HandleRequest now s r = Inr s'" "FindSlot s = Inr i"
      "0 \<le> now" "now \<le> maxInt64 - 148"
    using HandleRequest_stamp [OF that] by simp
  ultimately show ?thesis using initWorld_ok by blast
qed

theorem release_after_admission_tick_witness:
  "server_inv newServer \<and> HandleRequest 1 newServer exReq = Inr exAdmitted \<and>
   FindSlot newServer = Inr 0 \<and> (0::int) \<le> 1 \<and> (1::int) \<le> maxInt64 - 148 \<and>
   Accepted (Req (Slots exAdmitted ! 0)) = 1 \<and> Completed (Req (Slots exAdmitted ! 0)) = 101 \<and>
   world_ok exBusy \<and> main_loop [[]] exBusy = Inr exDone \<and>
   tm exBusy + int (length [[] :: (int \<times> int) list]) \<le> maxInt64 - 148 \<and>
   recorded exDone = [(101, exReq\<lparr>Accepted := 1, Completed := 101\<rparr>)] \<and>
   Accepted (exReq\<lparr>Accepted := 1, Completed := 101\<rparr>) < 101"
proof -
  have t: "tm exBusy + int (length [[] :: (int \<times> int) list]) \<le> maxInt64 - 148"
    by (simp add: exBusy_def maxInt64_def)
  have f: "FindSlot newServer = Inr 0" by code_simp
  have b: "(0::int) \<le> 1" "(1::int) \<le> maxInt64 - 148" by (simp_all add: maxInt64_def)
  have c: "Completed (Req (Slots exAdmitted ! 0)) = 101" by code_simp
  note th = release_after_admission_tick
    [where p = "Some ModuloHash" and s = newServer and now = 1 and r = exReq
       and s' = exAdmitted and i = 0 and w = exBusy and inps = "[[]]" and w' = exDone]
  from th newServer_inv ex_HandleRequest f b
  have a: "Accepted (Req (Slots exAdmitted ! 0)) = 1" by blast
  from th exBusy_ok ex_release_tick t
  have "\<forall>(t, r)\<in>set (recorded exDone).
         Accepted r + cachedHandleTime \<le> Completed r \<and> Completed r \<le> t \<and> Accepted r < t"
    by blast
  then have "Accepted (exReq\<lparr>Accepted := 1, Completed := 101\<rparr>) < 101"
    unfolding exDone_recorded by simp
  with newServer_inv ex_HandleRequest f b a c exBusy_ok ex_release_tick t exDone_recorded
  show ?thesis by blast
qed

text \<open>
  Claim C8. A round of the loop of \<^verbatim>\<open>main\<close> advances the clock by one and runs the reset
  exactly when the clock has become \<open>requestLimit div 2\<close>; the reset zeroes the five
  counters and \<open>tmx\<close>. Over a run the number of resets is 0 while the clock is below
  \<open>requestLimit div 2\<close> and 1 from then on; in particular it is 1 when the loop is left.
\<close>

theorem mid_run_reset_once:
  "reset_ok (initWorld p) \<and>
   (main_iter a w = Inr w' \<longrightarrow>
      tm w' = wrap64 (tm w + 1) \<and>
      (if tm w' = requestLimit div 2
       then resets w' = Suc (resets w) \<and> totalRequests w' = 0 \<and> acceptedRequests w' = 0 \<and>
            totalCached w' = 0 \<and> totalQueued w' = 0 \<and> totalTime w' = 0 \<and> tmx w' = 0
       else resets w' = resets w)) \<and>
   (reset_ok v \<and> main_loop inps v = Inr v' \<and> tm v + int (length inps) \<le> maxInt64 \<longrightarrow>
      resets v' = (if requestLimit div 2 \<le> tm v' then 1 else 0) \<and>
      (finished v' \<longrightarrow> resets v' = 1))"
proof -
  have step: "tm w' = wrap64 (tm w + 1) \<and>
      (if tm w' = requestLimit div 2
       then resets w' = Suc (resets w) \<and> totalRequests w' = 0 \<and> acceptedRequests w' = 0 \<and>
            totalCached w' = 0 \<and> totalQueued w' = 0 \<and> totalTime w' = 0 \<and> tmx w' = 0
       else resets w' = resets w)"
    if m: "main_iter a w = Inr w'"
  proof -
    from main_iter_frame [OF m] obtain w1 where t: "Tick a w = Inr w1"
      and f: "tm w' = tm w1"
        "if tm w1 = requestLimit div 2
            then resets w' = Suc (resets w1) \<and> totalRequests w' = 0 \<and>
                 acceptedRequests w' = 0 \<and> totalCached w' = 0 \<and> totalQueued w' = 0 \<and>
                 totalTime w' = 0 \<and> tmx w' = 0
            else resets w' = resets w1 \<and> totalRequests w' = totalRequests w1 \<and>
                 acceptedRequests w' = acceptedRequests w1 \<and> totalCached w' = totalCached w1 \<and>
                 totalQueued w' = totalQueued w1 \<and> totalTime w' = totalTime w1 \<and>
                 tmx w' = tmx w1 + 1"
      by blast
    from Tick_frame [OF t] f show ?thesis by (auto split: if_splits)
  qed
  have run: "resets v' = (if requestLimit div 2 \<le> tm v' then 1 else 0) \<and>
      (finished v' \<longrightarrow> resets v' = 1)"
    if h: "reset_ok v" "main_loop inps v = Inr v'" "tm v + int (length inps) \<le> maxInt64"
  proof -
    from main_loop_reset_ok [OF h] show ?thesis
      by (auto simp: reset_ok_def requestLimit_def)
  qed
  from step run initWorld_reset_ok show ?thesis by blast
qed

theorem mid_run_reset_once_witness:
  "main_iter [] exQuiet = Inr exReset \<and> tm exQuiet = 1999999 \<and> tm exReset = 2000000 \<and>
   requestLimit div 2 = 2000000 \<and> resets exQuiet = 0 \<and> resets exReset = 1 \<and>
   tmx exQuiet = 1999999 \<and> tmx exReset = 0 \<and>
   reset_ok exQuiet \<and> main_loop [[]] exQuiet = Inr exReset \<and>
   tm exQuiet + int (length [[] :: (int \<times> int) list]) \<le> maxInt64 \<and>
   main_loop [[(5, 0)]] (initWorld (Some ModuloHash)) = Inr exOneTick \<and>
   tm exOneTick = 1 \<and> resets exOneTick = 0"
proof -
  have q: "tm exQuiet = 1999999" "resets exQuiet = 0" "tmx exQuiet = 1999999"
    "finished exQuiet = False"
    by (simp_all add: exQuiet_def initWorld_def)
  have r: "tm exReset = 2000000" "tmx exReset = 0" by (simp_all add: exReset_def)
  have l: "requestLimit div 2 = 2000000" by (simp add: requestLimit_def)
  have ok: "reset_ok exQuiet" using q l by (simp add: reset_ok_def)
  have ml: "main_loop [[]] exQuiet = Inr exReset" using ex_reset_tick q by simp
  have b: "tm exQuiet + int (length [[] :: (int \<times> int) list]) \<le> maxInt64"
    using q by (simp add: maxInt64_def)
  have o: "tm exOneTick = 1" by (simp add: exOneTick_def)
  have b1: "tm (initWorld (Some ModuloHash)) + int (length [[(5::int, 0::int)]]) \<le> maxInt64"
    by (simp add: initWorld_def maxInt64_def)
  note th = mid_run_reset_once [of "Some ModuloHash" "[]" exQuiet exReset exQuiet "[[]]" exReset]
  from th ex_reset_tick r l q have r1: "resets exReset = 1" by simp
  from mid_run_reset_once [of "Some ModuloHash" "[]" exQuiet exReset
      "initWorld (Some ModuloHash)" "[[(5, 0)]]" exOneTick] ex_first_tick b1 o l
  have r0: "resets exOneTick = 0" by simp
  from ex_reset_tick q r l r1 ok ml b ex_first_tick o r0 show ?thesis by simp
qed

text \<open>
  Claim C4. In a state where every server satisfies \<open>server_inv\<close> and holds at most
  \<open>maxQueue\<close> queued requests (as in every world of a run), \<^verbatim>\<open>modchoose2\<close> returns the second candidate exactly when
  the second's \<open>Outstanding\<close> plus 16 is below the first's; when the first's equals the
  second's plus 16 it returns the first. The two candidates are never the same server.
\<close>

theorem modchoose2_bias:
  assumes "\<forall>s\<in>set svs. server_inv s \<and> length (Queue s) \<le> maxQueue"
    and "modchoose2 svs r = Inr i"
  shows "(i = mc_second r \<longleftrightarrow>
            Outstanding (svs ! nat (mc_second r)) + 16 < Outstanding (svs ! nat (mc_first r))) \<and>
         (Outstanding (svs ! nat (mc_first r)) = Outstanding (svs ! nat (mc_second r)) + 16
            \<longrightarrow> i = mc_first r) \<and>
         (i = mc_first r \<or> i = mc_second r) \<and> mc_first r \<noteq> mc_second r"
proof -
  let ?f = "mc_first r" and ?s = "mc_second r"
  from assms(2) have rng: "inRange ?s svs" "inRange ?f svs"
    by (auto simp: modchoose2_def Let_def split: if_splits)
  then have "svs ! nat ?s \<in> set svs" by (auto simp: inRange_def)
  with assms(1) have "server_inv (svs ! nat ?s)" "length (Queue (svs ! nat ?s)) \<le> maxQueue"
    by blast+
  from Outstanding_bounds [OF this]
  have "0 \<le> Outstanding (svs ! nat ?s) \<and> Outstanding (svs ! nat ?s) \<le> 58"
    by simp
  then have w: "wrap64 (Outstanding (svs ! nat ?s) + 16) = Outstanding (svs ! nat ?s) + 16"
    by (intro wrap64_id) simp_all
  from assms(2) rng w mc_candidates_differ [of r] show ?thesis
    by (auto simp: modchoose2_def Let_def split: if_splits)
qed

theorem modchoose2_bias_witness:
  "list_all (\<lambda>s. server_inv s \<and> length (Queue s) \<le> maxQueue) exMargin16 \<and>
   list_all (\<lambda>s. server_inv s \<and> length (Queue s) \<le> maxQueue) exMargin17 \<and>
   mc_first (newRequest 1 1) = 1 \<and> mc_second (newRequest 1 1) = 2 \<and>
   Outstanding (exMargin16 ! 1) = 16 \<and> Outstanding (exMargin16 ! 2) = 0 \<and>
   modchoose2 exMargin16 (newRequest 1 1) = Inr 1 \<and>
   Outstanding (exMargin17 ! 1) = 17 \<and> Outstanding (exMargin17 ! 2) = 0 \<and>
   modchoose2 exMargin17 (newRequest 1 1) = Inr 2"
proof -
  have la: "list_all (\<lambda>s. server_inv s \<and> length (Queue s) \<le> maxQueue) exMargin16"
    by code_simp
  have lb: "list_all (\<lambda>s. server_inv s \<and> length (Queue s) \<le> maxQueue) exMargin17"
    by code_simp
  from la have a: "\<forall>s\<in>set exMargin16. server_inv s \<and> length (Queue s) \<le> maxQueue"
    by (simp add: list_all_iff)
  from lb have b: "\<forall>s\<in>set exMargin17. server_inv s \<and> length (Queue s) \<le> maxQueue"
    by (simp add: list_all_iff)
  have c: "mc_first (newRequest 1 1) = 1" "mc_second (newRequest 1 1) = 2" by code_simp+
  have o: "Outstanding (exMargin16 ! 1) = 16" "Outstanding (exMargin16 ! 2) = 0"
    "Outstanding (exMargin17 ! 1) = 17" "Outstanding (exMargin17 ! 2) = 0"
    by code_simp+
  have m16: "modchoose2 exMargin16 (newRequest 1 1) = Inr 1" by code_simp
  have m17: "modchoose2 exMargin17 (newRequest 1 1) = Inr 2" by code_simp
  note t16 = modchoose2_bias [OF a m16] and t17 = modchoose2_bias [OF b m17]
  from t16 t17 la lb c o m16 m17 show ?thesis by simp
qed

end
